theory Spec2Isabelle
  imports Complex_Main "HOL-Library.List_Lexorder" "HOL-Library.Char_ord" "HOL-Library.AList"
    "HOL-Library.Multiset"
begin

section \<open>The image atlas generator (imgss.py)\<close>

text \<open>
  A shallow embedding of \<^verbatim>\<open>src/imgss.py\<close>. Python exceptions are values of the
  type \<open>error\<close>; a function that can raise returns \<open>error + 'a\<close>. Python's floats are
  IEEE 754 binary64 numbers: a finite float is modelled by the rational number it
  denotes, and every float operation rounds its exact result to the nearest
  representable number, ties to even. The file system and the image library (Pillow) are
  outside the repository: they are the fields of the record \<open>world\<close>.
\<close>

subsection \<open>Exceptions\<close>

datatype error =
    FileNotFoundError
  | NotADirectoryError
  | ValueError
  | ZeroDivisionError
  | OverflowError
  | UnidentifiedImageError
  | OSError
  | MemoryError

subsection \<open>Strings and paths (str.lower, str.rfind, os.path)\<close>

definition ascii_upper :: string where
  "ascii_upper = ''ABCDEFGHIJKLMNOPQRSTUVWXYZ''"

definition ascii_lower :: string where
  "ascii_lower = ''abcdefghijklmnopqrstuvwxyz''"

definition lower_char :: "char \<Rightarrow> char" where
  "lower_char c = (case map_of (zip ascii_upper ascii_lower) c of Some d \<Rightarrow> d | None \<Rightarrow> c)"

definition lower :: "string \<Rightarrow> string" where
  "lower s = map lower_char s"

text \<open>\<^verbatim>\<open>p.rfind(c)\<close>: the index of the last occurrence of \<open>c\<close>, or \<open>-1\<close>.\<close>

fun rfind_from :: "char \<Rightarrow> string \<Rightarrow> int \<Rightarrow> int \<Rightarrow> int" where
  "rfind_from c [] i found = found"
| "rfind_from c (x # xs) i found = rfind_from c xs (i + 1) (if x = c then i else found)"

definition rfind :: "char \<Rightarrow> string \<Rightarrow> int" where
  "rfind c p = rfind_from c p 0 (- 1)"

definition endswith :: "string \<Rightarrow> string \<Rightarrow> bool" where
  "endswith s suffix = (length suffix \<le> length s \<and> drop (length s - length suffix) s = suffix)"

definition startswith :: "string \<Rightarrow> string \<Rightarrow> bool" where
  "startswith s pre = (take (length pre) s = pre)"

text \<open>
  \<^verbatim>\<open>os.path.splitext\<close> (posixpath): the extension starts at the last dot of the last
  path component, unless that component consists of leading dots only up to there.
  The loop is the one of \<^verbatim>\<open>genericpath._splitext\<close>.
\<close>

function splitext_loop :: "string \<Rightarrow> nat \<Rightarrow> nat \<Rightarrow> string \<times> string" where
  "splitext_loop p filenameIndex dotIndex =
     (if filenameIndex < dotIndex then
        (if take 1 (drop filenameIndex p) \<noteq> ''.'' then (take dotIndex p, drop dotIndex p)
         else splitext_loop p (filenameIndex + 1) dotIndex)
      else (p, []))"
  by pat_completeness auto
termination
  by (relation "measure (\<lambda>(p, f, d). d - f)") auto

declare splitext_loop.simps [simp del]

definition splitext :: "string \<Rightarrow> string \<times> string" where
  "splitext p =
     (let sepIndex = rfind CHR ''/'' p; dotIndex = rfind CHR ''.'' p
      in if dotIndex > sepIndex then splitext_loop p (nat (sepIndex + 1)) (nat dotIndex)
         else (p, []))"

text \<open>\<^verbatim>\<open>os.path.join(a, b)\<close> and \<^verbatim>\<open>os.path.basename(p)\<close> (posixpath).\<close>

definition join :: "string \<Rightarrow> string \<Rightarrow> string" where
  "join a b =
     (if startswith b ''/'' then b
      else if a = [] \<or> endswith a ''/'' then a @ b
      else a @ ''/'' @ b)"

definition basename :: "string \<Rightarrow> string" where
  "basename p = drop (nat (rfind CHR ''/'' p + 1)) p"

subsection \<open>Python floats\<close>

text \<open>
  \<open>pow2 n\<close> is \<open>2\<close> to the power \<open>n\<close>, \<open>bit_length\<close> is \<^verbatim>\<open>int.bit_length\<close>, and
  \<open>ilog2 x\<close> is the exponent \<open>e\<close> with \<open>2^e \<le> x < 2^(e+1)\<close> of a positive rational.
\<close>

definition pow2 :: "int \<Rightarrow> rat" where
  "pow2 n = (if 0 \<le> n then 2 ^ nat n else 1 / 2 ^ nat (- n))"

fun bit_length :: "nat \<Rightarrow> nat" where
  "bit_length n = (if n = 0 then 0 else Suc (bit_length (n div 2)))"

declare bit_length.simps [simp del]

definition ilog2 :: "rat \<Rightarrow> int" where
  "ilog2 x =
     (let d = int (bit_length (nat (fst (quotient_of x)))) - int (bit_length (nat (snd (quotient_of x))))
      in if pow2 d \<le> x then d else d - 1)"

definition round_half_even :: "rat \<Rightarrow> int" where
  "round_half_even r =
     (let f = \<lfloor>r\<rfloor>; d = r - of_int f
      in if d < 1 / 2 then f else if 1 / 2 < d then f + 1 else if even f then f else f + 1)"

text \<open>
  \<open>fl x\<close> is the binary64 number nearest to \<open>x\<close> (53 bits of precision, smallest normal
  exponent \<open>-1022\<close>, gradual underflow below it), before the overflow check: a result of
  magnitude \<open>2^1024\<close> or more stands for an infinity.
\<close>

definition fl :: "rat \<Rightarrow> rat" where
  "fl x =
     (if x = 0 then 0
      else let e = max (ilog2 \<bar>x\<bar>) (- 1022); q = pow2 (e - 52)
           in sgn x * (of_int (round_half_even (\<bar>x\<bar> / q)) * q))"

definition overflows :: "rat \<Rightarrow> bool" where
  "overflows r = (2 ^ 1024 \<le> \<bar>r\<bar>)"

datatype pyfloat = Finite rat | PosInf | NegInf

text \<open>\<^verbatim>\<open>a / b\<close> on two ints: correctly rounded, or ZeroDivisionError or OverflowError.\<close>

definition int_truediv :: "int \<Rightarrow> int \<Rightarrow> error + rat" where
  "int_truediv a b =
     (if b = 0 then Inl ZeroDivisionError
      else let r = fl (of_int a / of_int b)
           in if overflows r then Inl OverflowError else Inr r)"

text \<open>The conversion of an int operand of a float operation.\<close>

definition int_to_float :: "int \<Rightarrow> error + rat" where
  "int_to_float n = (let r = fl (of_int n) in if overflows r then Inl OverflowError else Inr r)"

text \<open>\<^verbatim>\<open>x * y\<close> on two finite floats: an overflow gives an infinity, not an exception.\<close>

definition float_mul :: "rat \<Rightarrow> rat \<Rightarrow> pyfloat" where
  "float_mul x y =
     (let r = fl (x * y)
      in if overflows r then (if 0 < r then PosInf else NegInf) else Finite r)"

text \<open>The integer square root, bit by bit from the top.\<close>

fun isqrt_loop :: "nat \<Rightarrow> int \<Rightarrow> int \<Rightarrow> int" where
  "isqrt_loop k n r =
     (if k = 0 then r
      else let r' = r + 2 ^ (k - 1)
           in isqrt_loop (k - 1) n (if r' * r' \<le> n then r' else r))"

declare isqrt_loop.simps [simp del]

definition isqrt :: "int \<Rightarrow> int" where
  "isqrt n = isqrt_loop (bit_length (nat n)) n 0"

text \<open>
  The correctly rounded square root of a finite float \<open>x > 0\<close>: the root lies in
  \<open>[2^e, 2^(e+1))\<close> for \<open>e = ilog2 x div 2\<close>, so its 53-bit significand is the integer
  square root of \<open>x / q^2\<close> for \<open>q = 2^(e-52)\<close>, rounded up when \<open>x / q^2\<close> is beyond the
  square of the midpoint.
\<close>

definition fsqrt :: "rat \<Rightarrow> rat" where
  "fsqrt x =
     (if x = 0 then 0
      else let e = ilog2 x div 2; q = pow2 (e - 52); y = x / (q * q);
               m = isqrt \<lfloor>y\<rfloor>; mid = (of_int m + 1 / 2) * (of_int m + 1 / 2)
           in (if y < mid \<or> (y = mid \<and> even m) then of_int m else of_int (m + 1)) * q)"

definition math_sqrt :: "pyfloat \<Rightarrow> error + pyfloat" where
  "math_sqrt v =
     (case v of
        Finite x \<Rightarrow> if x < 0 then Inl ValueError else Inr (Finite (fsqrt x))
      | PosInf \<Rightarrow> Inr PosInf
      | NegInf \<Rightarrow> Inl ValueError)"

definition math_floor :: "pyfloat \<Rightarrow> error + int" where
  "math_floor v = (case v of Finite x \<Rightarrow> Inr \<lfloor>x\<rfloor> | PosInf \<Rightarrow> Inl OverflowError | NegInf \<Rightarrow> Inl OverflowError)"

definition math_ceil :: "pyfloat \<Rightarrow> error + int" where
  "math_ceil v = (case v of Finite x \<Rightarrow> Inr \<lceil>x\<rceil> | PosInf \<Rightarrow> Inl OverflowError | NegInf \<Rightarrow> Inl OverflowError)"

text \<open>\<^verbatim>\<open>int(v)\<close> on a float truncates towards zero.\<close>

definition int_of_float :: "pyfloat \<Rightarrow> error + int" where
  "int_of_float v =
     (case v of
        Finite x \<Rightarrow> Inr (if 0 \<le> x then \<lfloor>x\<rfloor> else \<lceil>x\<rceil>)
      | PosInf \<Rightarrow> Inl OverflowError
      | NegInf \<Rightarrow> Inl OverflowError)"

text \<open>\<^verbatim>\<open>a % b\<close> and \<^verbatim>\<open>a // b\<close> on ints round towards minus infinity, as \<open>mod\<close> and \<open>div\<close> do.\<close>

definition py_mod :: "int \<Rightarrow> int \<Rightarrow> error + int" where
  "py_mod a b = (if b = 0 then Inl ZeroDivisionError else Inr (a mod b))"

definition py_floordiv :: "int \<Rightarrow> int \<Rightarrow> error + int" where
  "py_floordiv a b = (if b = 0 then Inl ZeroDivisionError else Inr (a div b))"

subsection \<open>The world: file system and image library\<close>

datatype fs_node = Missing | Directory "string list" | NotDirectory

record image =
  width :: int
  height :: int
  mode :: string

text \<open>
  \<open>fs\<close> says what a path names (for a directory, \<^verbatim>\<open>os.listdir\<close>'s answer, in its
  order). The other fields are Pillow's operations: each may raise.
\<close>

record world =
  fs :: "string \<Rightarrow> fs_node"
  image_open :: "string \<Rightarrow> error + image"
  image_convert :: "image \<Rightarrow> string \<Rightarrow> error + image"
  image_resize :: "image \<Rightarrow> int \<times> int \<Rightarrow> error + image"
  image_paste :: "image \<times> int \<times> int \<Rightarrow> error option"
  image_new :: "int \<times> int \<Rightarrow> error option"
  image_save :: "string \<Rightarrow> error option"

definition exists_path :: "world \<Rightarrow> string \<Rightarrow> bool" where
  "exists_path w p = (fs w p \<noteq> Missing)"

definition listdir :: "world \<Rightarrow> string \<Rightarrow> error + string list" where
  "listdir w p =
     (case fs w p of
        Missing \<Rightarrow> Inl FileNotFoundError
      | Directory names \<Rightarrow> Inr names
      | NotDirectory \<Rightarrow> Inl NotADirectoryError)"

subsection \<open>ImageAtlasGenerator\<close>

record generator =
  input_dir :: string
  output_path :: string
  output_name :: string
  sprite_width :: int
  sprite_height :: int
  atlas_width :: int
  atlas_height :: int

definition supported_formats :: "string set" where
  "supported_formats = {''.png'', ''.jpeg'', ''.jpg'', ''.webm'', ''.webp''}"

fun collect_images :: "string \<Rightarrow> string list \<Rightarrow> string list \<Rightarrow> string list" where
  "collect_images dir [] image_files = image_files"
| "collect_images dir (filename # rest) image_files =
     (let file_ext = lower (snd (splitext filename))
      in collect_images dir rest
           (if file_ext \<in> supported_formats then image_files @ [join dir filename]
            else image_files))"

definition get_image_files :: "world \<Rightarrow> generator \<Rightarrow> error + string list" where
  "get_image_files w g =
     (if \<not> exists_path w (input_dir g) then Inl FileNotFoundError
      else case listdir w (input_dir g) of
             Inl e \<Rightarrow> Inl e
           | Inr names \<Rightarrow> Inr (sort (collect_images (input_dir g) names [])))"

definition calculate_grid_size :: "generator \<Rightarrow> int \<Rightarrow> error + int \<times> int" where
  "calculate_grid_size g num_images =
     (if num_images = 0 then Inr (1, 1)
      else
        case int_truediv (atlas_width g) (sprite_width g) of Inl e \<Rightarrow> Inl e | Inr ratio \<Rightarrow>
        case int_to_float num_images of Inl e \<Rightarrow> Inl e | Inr n \<Rightarrow>
        case math_sqrt (float_mul ratio n) of Inl e \<Rightarrow> Inl e | Inr rt \<Rightarrow>
        case math_floor rt of Inl e \<Rightarrow> Inl e | Inr cols \<Rightarrow>
        case int_truediv num_images cols of Inl e \<Rightarrow> Inl e | Inr q \<Rightarrow>
        case math_ceil (Finite q) of Inl e \<Rightarrow> Inl e | Inr rows \<Rightarrow>
        Inr (cols, rows))"

text \<open>Lines 56 to 62 of \<^verbatim>\<open>resize_image_to_fit\<close>: the new dimensions.\<close>

definition scaled_dim :: "int \<Rightarrow> rat \<Rightarrow> error + int" where
  "scaled_dim d scale =
     (case int_to_float d of Inl e \<Rightarrow> Inl e | Inr f \<Rightarrow> int_of_float (float_mul f scale))"

definition new_size :: "image \<Rightarrow> int \<Rightarrow> int \<Rightarrow> error + int \<times> int" where
  "new_size img cell_width cell_height =
     (case int_truediv cell_width (width img) of Inl e \<Rightarrow> Inl e | Inr scale_x \<Rightarrow>
      case int_truediv cell_height (height img) of Inl e \<Rightarrow> Inl e | Inr scale_y \<Rightarrow>
      let scale = min scale_x scale_y in
      case scaled_dim (width img) scale of Inl e \<Rightarrow> Inl e | Inr new_width \<Rightarrow>
      case scaled_dim (height img) scale of Inl e \<Rightarrow> Inl e | Inr new_height \<Rightarrow>
      Inr (new_width, new_height))"

definition resize_image_to_fit :: "world \<Rightarrow> image \<Rightarrow> int \<Rightarrow> int \<Rightarrow> error + image" where
  "resize_image_to_fit w img cell_width cell_height =
     (case new_size img cell_width cell_height of
        Inl e \<Rightarrow> Inl e
      | Inr new_dims \<Rightarrow> image_resize w img new_dims)"

record info =
  info_x :: int
  info_y :: int
  info_width :: int
  info_height :: int
  info_cell_x :: int
  info_cell_y :: int
  info_cell_width :: int
  info_cell_height :: int
  info_original_size :: "int \<times> int"

datatype message = Processing string | ErrorProcessing string error

text \<open>
  What the loop of \<^verbatim>\<open>create_atlas\<close> mutates: the canvas (the pastes made, in order),
  the dict \<open>atlas_mapping\<close> (in insertion order; assigning to a key that is present
  replaces its value in place, as \<open>AList.update\<close> does) and the lines printed.
\<close>

record loop_state =
  atlas :: "(image \<times> int \<times> int) list"
  atlas_mapping :: "(string \<times> info) list"
  printed :: "message list"

text \<open>
  The body of the \<^verbatim>\<open>try\<close> block for the file at index \<open>i\<close>: the state it leaves, and
  the exception that ended it, if any.
\<close>

definition process_image ::
  "world \<Rightarrow> int \<Rightarrow> int \<Rightarrow> int \<Rightarrow> int \<Rightarrow> string \<Rightarrow> loop_state \<Rightarrow> loop_state \<times> error option" where
  "process_image w cols cell_width cell_height i image_path st =
     (case py_mod i cols of Inl e \<Rightarrow> (st, Some e) | Inr col \<Rightarrow>
      case py_floordiv i cols of Inl e \<Rightarrow> (st, Some e) | Inr row \<Rightarrow>
      let x = col * cell_width;
          y = row * cell_height;
          st1 = st\<lparr>printed := printed st @ [Processing (basename image_path)]\<rparr>
      in
      case image_open w image_path of Inl e \<Rightarrow> (st1, Some e) | Inr opened \<Rightarrow>
      case (if mode opened \<noteq> ''RGBA'' then image_convert w opened ''RGBA'' else Inr opened) of
        Inl e \<Rightarrow> (st1, Some e) | Inr img \<Rightarrow>
      case resize_image_to_fit w img cell_width cell_height of
        Inl e \<Rightarrow> (st1, Some e) | Inr resized_img \<Rightarrow>
      let paste_x = x + (cell_width - width resized_img) div 2;
          paste_y = y + (cell_height - height resized_img) div 2
      in
      case image_paste w (resized_img, paste_x, paste_y) of Some e \<Rightarrow> (st1, Some e) | None \<Rightarrow>
      let st2 = st1\<lparr>atlas := atlas st1 @ [(resized_img, paste_x, paste_y)]\<rparr>;
          filename = basename image_path
      in (st2\<lparr>atlas_mapping :=
                AList.update filename
                  \<lparr>info_x = paste_x, info_y = paste_y,
                   info_width = width resized_img, info_height = height resized_img,
                   info_cell_x = x, info_cell_y = y,
                   info_cell_width = cell_width, info_cell_height = cell_height,
                   info_original_size = (width img, height img)\<rparr>
                  (atlas_mapping st2)\<rparr>, None))"

text \<open>The \<^verbatim>\<open>for\<close> loop with its \<^verbatim>\<open>except Exception\<close> handler.\<close>

fun process_images ::
  "world \<Rightarrow> int \<Rightarrow> int \<Rightarrow> int \<Rightarrow> int \<Rightarrow> string list \<Rightarrow> loop_state \<Rightarrow> loop_state" where
  "process_images w cols cell_width cell_height i [] st = st"
| "process_images w cols cell_width cell_height i (image_path # rest) st =
     (case process_image w cols cell_width cell_height i image_path st of
        (st', None) \<Rightarrow> process_images w cols cell_width cell_height (i + 1) rest st'
      | (st', Some e) \<Rightarrow>
          process_images w cols cell_width cell_height (i + 1) rest
            (st'\<lparr>printed := printed st' @ [ErrorProcessing image_path e]\<rparr>))"

definition atlas_file :: "generator \<Rightarrow> string" where
  "atlas_file g =
     output_path g @ (if endswith (output_path g) ''/'' then '''' else ''/'') @ output_name g
       @ ''-atlus.png''"

text \<open>
  \<^verbatim>\<open>create_atlas\<close> returns the mapping; the model returns the whole final state of the
  loop, so that the canvas saved to \<open>atlas_file g\<close> can be spoken of too.
\<close>

definition create_atlas :: "world \<Rightarrow> generator \<Rightarrow> error + loop_state" where
  "create_atlas w g =
     (case get_image_files w g of Inl e \<Rightarrow> Inl e | Inr image_files \<Rightarrow>
      if image_files = [] then Inl ValueError
      else
        case calculate_grid_size g (int (length image_files)) of
          Inl e \<Rightarrow> Inl e
        | Inr (cols, rows) \<Rightarrow>
            let cell_width = sprite_width g; cell_height = sprite_height g in
            case image_new w (atlas_width g, atlas_height g) of Some e \<Rightarrow> Inl e | None \<Rightarrow>
            let st = process_images w cols cell_width cell_height 0 image_files
                       \<lparr>atlas = [], atlas_mapping = [], printed = []\<rparr>
            in case image_save w (atlas_file g) of Some e \<Rightarrow> Inl e | None \<Rightarrow> Inr st)"

text \<open>
  \<^verbatim>\<open>save_mapping_file\<close>: the path the mapping is written to, with the records in the
  order they are written.
\<close>

definition save_mapping_file ::
  "generator \<Rightarrow> (string \<times> info) list \<Rightarrow> string option \<Rightarrow> string \<times> (string \<times> info) list" where
  "save_mapping_file g mapping mapping_path =
     (case mapping_path of
        None \<Rightarrow> (fst (splitext (output_path g)) @ ''_mapping.txt'', mapping)
      | Some p \<Rightarrow> (p, mapping))"

subsection \<open>The specification's formulas and example inputs\<close>

text \<open>
  The Grid Planner in the spec's words: \<open>columns = floor(sqrt((atlasWidth / spriteWidth) *
  imageCount))\<close> and \<open>rows = ceil(imageCount / columns)\<close>. Division, product and
  square root of the first formula are the float operations; the ceiling of the second
  is the exact one.
\<close>

definition spec_columns :: "int \<Rightarrow> int \<Rightarrow> int \<Rightarrow> int" where
  "spec_columns atlasWidth spriteWidth imageCount =
     \<lfloor>fsqrt (fl (fl (of_int atlasWidth / of_int spriteWidth) * of_int imageCount))\<rfloor>"

definition spec_rows :: "int \<Rightarrow> int \<Rightarrow> int" where
  "spec_rows imageCount columns = \<lceil>(of_int imageCount / of_int columns :: rat)\<rceil>"

text \<open>A directory entry whose lowercased extension is one of the supported formats.\<close>

definition has_supported_extension :: "string \<Rightarrow> bool" where
  "has_supported_extension filename = (lower (snd (splitext filename)) \<in> supported_formats)"

text \<open>
  The default mapping path in the spec's words: the atlas output path with its extension
  replaced by \<open>_mapping.txt\<close>.
\<close>

definition spec_mapping_path :: "generator \<Rightarrow> string" where
  "spec_mapping_path g = fst (splitext (atlas_file g)) @ ''_mapping.txt''"

text \<open>The generator that the command line builds from its defaults.\<close>

definition default_generator :: generator where
  "default_generator =
     \<lparr>input_dir = ''sprites'', output_path = ''out'', output_name = ''game'',
      sprite_width = 32, sprite_height = 32, atlas_width = 512, atlas_height = 512\<rparr>"

text \<open>
  A world for the examples: the directory \<open>sprites\<close> holds four images, one of them
  unreadable, and a text file; every other path is missing. The image library refuses
  sizes outside \<open>1 .. 2^31 - 1\<close>.
\<close>

definition demo_world :: world where
  "demo_world =
     \<lparr>fs = (\<lambda>p. if p = ''sprites''
                then Directory [''b.png'', ''notes.txt'', ''A.JPG'', ''bad.png'', ''c.webp'']
                else Missing),
      image_open = (\<lambda>p.
         if p = ''sprites/A.JPG'' then Inr \<lparr>width = 64, height = 32, mode = ''RGB''\<rparr>
         else if p = ''sprites/b.png'' then Inr \<lparr>width = 62, height = 64, mode = ''RGBA''\<rparr>
         else if p = ''sprites/c.webp'' then Inr \<lparr>width = 16, height = 16, mode = ''RGBA''\<rparr>
         else Inl UnidentifiedImageError),
      image_convert = (\<lambda>img m. Inr (img\<lparr>mode := m\<rparr>)),
      image_resize = (\<lambda>img (w, h).
         if 0 < w \<and> w < 2 ^ 31 \<and> 0 < h \<and> h < 2 ^ 31 then Inr (img\<lparr>width := w, height := h\<rparr>)
         else Inl ValueError),
      image_paste = (\<lambda>p. None),
      image_new = (\<lambda>s. None),
      image_save = (\<lambda>p. None)\<rparr>"

text \<open>The same world with a directory that holds no image.\<close>

definition empty_world :: world where
  "empty_world = demo_world\<lparr>fs := (\<lambda>p. if p = ''sprites'' then Directory [''notes.txt''] else Missing)\<rparr>"




text \<open>
  Names for what one pass of the loop does. \<open>enumerate_from\<close> is Python's
  \<^verbatim>\<open>enumerate\<close>; \<open>place_image\<close> runs the body of the \<^verbatim>\<open>try\<close> block for one file on
  the initial state and gives the exception it raised, or else the paste it made and the
  record it stored; \<open>placed\<close> says that the body did not raise; \<open>entry\<close> is the
  item the dict receives for a file that was placed.
\<close>

fun enumerate_from :: "int \<Rightarrow> 'a list \<Rightarrow> (int \<times> 'a) list" where
  "enumerate_from i [] = []"
| "enumerate_from i (x # xs) = (i, x) # enumerate_from (i + 1) xs"

definition initial_state :: loop_state where
  "initial_state = \<lparr>atlas = [], atlas_mapping = [], printed = []\<rparr>"

definition place_image ::
  "world \<Rightarrow> int \<Rightarrow> int \<Rightarrow> int \<Rightarrow> int \<times> string \<Rightarrow> error + (image \<times> int \<times> int) \<times> info" where
  "place_image w cols cell_width cell_height ip =
     (case process_image w cols cell_width cell_height (fst ip) (snd ip) initial_state of
        (st, Some e) \<Rightarrow> Inl e
      | (st, None) \<Rightarrow> Inr (last (atlas st), snd (last (atlas_mapping st))))"

definition placed :: "world \<Rightarrow> int \<Rightarrow> int \<Rightarrow> int \<Rightarrow> int \<times> string \<Rightarrow> bool" where
  "placed w cols cell_width cell_height ip = (\<not> isl (place_image w cols cell_width cell_height ip))"

definition entry :: "world \<Rightarrow> int \<Rightarrow> int \<Rightarrow> int \<Rightarrow> int \<times> string \<Rightarrow> string \<times> info" where
  "entry w cols cell_width cell_height ip =
     (basename (snd ip), snd (projr (place_image w cols cell_width cell_height ip)))"

text \<open>
  The Image Fitter in the spec's words: \<open>scale = min(cellWidth/imgWidth,
  cellHeight/imgHeight)\<close> and the new size \<open>round(imgWidth*scale),
  round(imgHeight*scale)\<close>, with the float division and product and rounding to the
  nearest integer.
\<close>

definition spec_scale :: "image \<Rightarrow> int \<Rightarrow> int \<Rightarrow> rat" where
  "spec_scale img cellWidth cellHeight =
     min (fl (of_int cellWidth / of_int (width img))) (fl (of_int cellHeight / of_int (height img)))"

definition spec_new_size :: "image \<Rightarrow> int \<Rightarrow> int \<Rightarrow> int \<times> int" where
  "spec_new_size img cellWidth cellHeight =
     (round (fl (of_int (width img) * spec_scale img cellWidth cellHeight)),
      round (fl (of_int (height img) * spec_scale img cellWidth cellHeight)))"

text \<open>The same with \<^verbatim>\<open>int()\<close>, which drops the fraction of a float that is not negative.\<close>

definition truncated_new_size :: "image \<Rightarrow> int \<Rightarrow> int \<Rightarrow> int \<times> int" where
  "truncated_new_size img cellWidth cellHeight =
     (\<lfloor>fl (of_int (width img) * spec_scale img cellWidth cellHeight)\<rfloor>,
      \<lfloor>fl (of_int (height img) * spec_scale img cellWidth cellHeight)\<rfloor>)"

text \<open>Integer division that truncates towards zero, as the spec's centring formula has it.\<close>

definition trunc_div :: "int \<Rightarrow> int \<Rightarrow> int" where
  "trunc_div a b = sgn a * sgn b * (\<bar>a\<bar> div \<bar>b\<bar>)"

text \<open>
  What \<^verbatim>\<open>Image.resize\<close> promises when it returns: an image of the size it was asked for.
\<close>

definition resizes_to_size :: "world \<Rightarrow> bool" where
  "resizes_to_size w =
     (\<forall>img dims r. image_resize w img dims = Inr r \<longrightarrow> (width r, height r) = dims)"

section \<open>Properties\<close>

subsection \<open>Powers of two and the binary exponent\<close>

lemma pow2_powi: "pow2 n = 2 powi n"
  by (simp add: pow2_def power_int_def field_simps)

lemma pow2_pos [simp]: "0 < pow2 n"
  by (simp add: pow2_powi)

lemma pow2_add: "pow2 (a + b) = pow2 a * pow2 b"
  by (simp add: pow2_powi power_int_add)

lemma pow2_diff: "pow2 (a - b) = pow2 a / pow2 b"
  by (simp add: pow2_powi power_int_diff)

lemma pow2_mono: "a \<le> b \<Longrightarrow> pow2 a \<le> pow2 b"
  by (simp add: pow2_powi power_int_increasing)

lemma pow2_strict_mono: "a < b \<Longrightarrow> pow2 a < pow2 b"
  by (simp add: pow2_powi power_int_strict_increasing)

lemma pow2_le_iff: "pow2 a \<le> pow2 b \<longleftrightarrow> a \<le> b"
  using pow2_mono [of a b] pow2_strict_mono [of b a] by (auto simp: not_le [symmetric])

lemma pow2_less_iff: "pow2 a < pow2 b \<longleftrightarrow> a < b"
  using pow2_strict_mono [of a b] pow2_mono [of b a] by (auto simp: not_less [symmetric])

lemma pow2_nat: "pow2 (int n) = 2 ^ n"
  by (simp add: pow2_def)

lemma pow2_0 [simp]: "pow2 0 = 1"
  by (simp add: pow2_def)

lemma bit_length_bounds:
  "0 < n \<Longrightarrow> 2 ^ (bit_length n - 1) \<le> n \<and> n < 2 ^ bit_length n"
proof (induction n rule: bit_length.induct)
  case (1 n)
  show ?case
  proof (cases "n div 2 = 0")
    case True
    with "1.prems" have "n = 1" by (simp add: div_eq_0_iff) 
    then show ?thesis by (simp add: bit_length.simps [of "Suc 0"] bit_length.simps [of 0])
  next
    case False
    then have pos: "0 < n div 2" by simp
    from "1.IH" [OF _ pos] "1.prems"
    have ih: "2 ^ (bit_length (n div 2) - 1) \<le> n div 2" "n div 2 < 2 ^ bit_length (n div 2)"
      by auto
    have bl: "bit_length n = Suc (bit_length (n div 2))"
      using "1.prems" by (simp add: bit_length.simps [of n])
    have "0 < bit_length (n div 2)"
      using pos by (simp add: bit_length.simps [of "n div 2"])
    then obtain k where k: "bit_length (n div 2) = Suc k"
      by (cases "bit_length (n div 2)") auto
    from ih have "2 * 2 ^ k \<le> n" "n < 2 * 2 ^ Suc k"
      unfolding k by auto
    then show ?thesis by (simp add: bl k)
  qed
qed

lemma ilog2_bounds:
  assumes "0 < x"
  shows "pow2 (ilog2 x) \<le> x \<and> x < pow2 (ilog2 x + 1)"
proof -
  obtain a b where q: "quotient_of x = (a, b)" by (cases "quotient_of x")
  then have b: "0 < b" and x: "x = of_int a / of_int b"
    using quotient_of_denom_pos [OF q] quotient_of_div [OF q] by auto
  with assms have a: "0 < a" by (simp add: zero_less_divide_iff)
  define la where "la = bit_length (nat a)"
  define lb where "lb = bit_length (nat b)"
  have A: "2 ^ (la - 1) \<le> nat a" "nat a < 2 ^ la"
    using bit_length_bounds [of "nat a"] a by (auto simp: la_def)
  have B: "2 ^ (lb - 1) \<le> nat b" "nat b < 2 ^ lb"
    using bit_length_bounds [of "nat b"] b by (auto simp: lb_def)
  have la: "0 < la" using a by (simp add: la_def bit_length.simps [of "nat a"])
  have lb: "0 < lb" using b by (simp add: lb_def bit_length.simps [of "nat b"])
  have ra: "pow2 (int la - 1) \<le> of_int a" "(of_int a :: rat) < pow2 (int la)"
  proof -
    have "(of_nat (2 ^ (la - 1)) :: rat) \<le> of_nat (nat a)"
      using A(1) by (simp only: of_nat_le_iff)
    then have "(2::rat) ^ (la - 1) \<le> of_nat (nat a)" by simp
    moreover have "pow2 (int la - 1) = 2 ^ (la - 1)"
      using la pow2_nat [of "la - 1"] by (simp add: of_nat_diff)
    moreover have "(of_nat (nat a) :: rat) = of_int a" using a by simp
    ultimately show "pow2 (int la - 1) \<le> of_int a" by simp
    have "(of_nat (nat a) :: rat) < of_nat (2 ^ la)"
      using A(2) by (simp only: of_nat_less_iff)
    then have "(of_nat (nat a) :: rat) < 2 ^ la" by simp
    moreover have "(of_nat (nat a) :: rat) = of_int a" using a by simp
    ultimately show "(of_int a :: rat) < pow2 (int la)" by (simp add: pow2_nat)
  qed
  have rb: "pow2 (int lb - 1) \<le> of_int b" "(of_int b :: rat) < pow2 (int lb)"
  proof -
    have "(of_nat (2 ^ (lb - 1)) :: rat) \<le> of_nat (nat b)"
      using B(1) by (simp only: of_nat_le_iff)
    then have "(2::rat) ^ (lb - 1) \<le> of_nat (nat b)" by simp
    moreover have "pow2 (int lb - 1) = 2 ^ (lb - 1)"
      using lb pow2_nat [of "lb - 1"] by (simp add: of_nat_diff)
    moreover have "(of_nat (nat b) :: rat) = of_int b" using b by simp
    ultimately show "pow2 (int lb - 1) \<le> of_int b" by simp
    have "(of_nat (nat b) :: rat) < of_nat (2 ^ lb)"
      using B(2) by (simp only: of_nat_less_iff)
    then have "(of_nat (nat b) :: rat) < 2 ^ lb" by simp
    moreover have "(of_nat (nat b) :: rat) = of_int b" using b by simp
    ultimately show "(of_int b :: rat) < pow2 (int lb)" by (simp add: pow2_nat)
  qed
  define d where "d = int la - int lb"
  have bpos: "(0::rat) < of_int b" using b by simp
  have up: "x < pow2 (d + 1)"
  proof -
    have "of_int a < pow2 (int la)" by (rule ra)
    also have "pow2 (int la) = pow2 (d + 1) * pow2 (int lb - 1)"
      by (simp add: d_def pow2_add [symmetric])
    also have "\<dots> \<le> pow2 (d + 1) * of_int b"
      using rb(1) by (simp add: mult_left_mono)
    finally show ?thesis using bpos by (simp add: x pos_divide_less_eq)
  qed
  have lo: "pow2 (d - 1) < x"
  proof -
    have "pow2 (d - 1) * of_int b < pow2 (d - 1) * pow2 (int lb)"
      using rb(2) by (simp add: mult_strict_left_mono)
    also have "\<dots> = pow2 (int la - 1)"
      by (simp add: d_def pow2_add [symmetric])
    also have "\<dots> \<le> of_int a" by (rule ra)
    finally show ?thesis using bpos by (simp add: x pos_less_divide_eq)
  qed
  have il: "ilog2 x = (if pow2 d \<le> x then d else d - 1)"
    by (simp add: ilog2_def q d_def la_def lb_def Let_def)
  show ?thesis
    using up lo by (auto simp: il not_le less_imp_le)
qed


subsection \<open>Rounding to the nearest float\<close>

lemma rhe_cases:
  "round_half_even r = \<lfloor>r\<rfloor> \<or> round_half_even r = \<lfloor>r\<rfloor> + 1"
  by (simp add: round_half_even_def Let_def)

lemma rhe_upper: "of_int (round_half_even r) \<le> r + 1 / 2"
proof -
  have f: "of_int \<lfloor>r\<rfloor> \<le> r" by simp
  consider "r - of_int \<lfloor>r\<rfloor> < 1 / 2" | "1 / 2 \<le> r - of_int \<lfloor>r\<rfloor>" by linarith
  then show ?thesis
  proof cases
    case 1
    then have "round_half_even r = \<lfloor>r\<rfloor>" by (simp add: round_half_even_def)
    then have "(of_int (round_half_even r) :: rat) = of_int \<lfloor>r\<rfloor>" by simp
    with f show ?thesis by linarith
  next
    case 2
    have "of_int (round_half_even r) \<le> (of_int \<lfloor>r\<rfloor> + 1 :: rat)"
      using rhe_cases [of r] by auto
    with 2 show ?thesis by linarith
  qed
qed

lemma rhe_lower: "r - 1 / 2 \<le> of_int (round_half_even r)"
proof -
  have f: "r < of_int \<lfloor>r\<rfloor> + 1" by linarith
  consider "r - of_int \<lfloor>r\<rfloor> \<le> 1 / 2" | "1 / 2 < r - of_int \<lfloor>r\<rfloor>" by linarith
  then show ?thesis
  proof cases
    case 1
    have "(of_int \<lfloor>r\<rfloor> :: rat) \<le> of_int (round_half_even r)"
      using rhe_cases [of r] by auto
    with 1 show ?thesis by linarith
  next
    case 2
    then have "round_half_even r = \<lfloor>r\<rfloor> + 1" by (simp add: round_half_even_def)
    then have "(of_int (round_half_even r) :: rat) = of_int \<lfloor>r\<rfloor> + 1" by simp
    with f show ?thesis by linarith
  qed
qed

lemma rhe_of_int [simp]: "round_half_even (of_int k) = k"
  by (simp add: round_half_even_def)

lemma rhe_mono:
  assumes "r \<le> s"
  shows "round_half_even r \<le> round_half_even s"
proof (cases "\<lfloor>r\<rfloor> = \<lfloor>s\<rfloor>")
  case True
  with assms have "r - of_int \<lfloor>r\<rfloor> \<le> s - of_int \<lfloor>s\<rfloor>" by simp
  with True show ?thesis
    by (auto simp: round_half_even_def Let_def)
next
  case False
  with assms have "\<lfloor>r\<rfloor> < \<lfloor>s\<rfloor>"
    using floor_mono [OF assms] by linarith
  moreover have "round_half_even r \<le> \<lfloor>r\<rfloor> + 1" using rhe_cases [of r] by auto
  moreover have "\<lfloor>s\<rfloor> \<le> round_half_even s" using rhe_cases [of s] by auto
  ultimately show ?thesis by linarith
qed

lemma rhe_ge: "of_int k \<le> r \<Longrightarrow> k \<le> round_half_even r"
  using rhe_mono [of "of_int k" r] by simp

lemma rhe_le: "r \<le> of_int k \<Longrightarrow> round_half_even r \<le> k"
  using rhe_mono [of r "of_int k"] by simp

text \<open>The exponent and the quantum that \<open>fl\<close> uses for a positive \<open>x\<close>.\<close>

lemma fl_pos:
  "0 < x \<Longrightarrow>
   fl x = of_int (round_half_even (x / pow2 (max (ilog2 x) (- 1022) - 52)))
            * pow2 (max (ilog2 x) (- 1022) - 52)"
  by (simp add: fl_def Let_def)

lemma fl_neg: "fl (- x) = - fl x"
  by (simp add: fl_def Let_def)

lemma fl_0 [simp]: "fl 0 = 0"
  by (simp add: fl_def)

lemma fl_nonneg: "0 \<le> x \<Longrightarrow> 0 \<le> fl x"
proof (cases "x = 0")
  case False
  assume "0 \<le> x"
  with False have pos: "0 < x" by simp
  let ?q = "pow2 (max (ilog2 x) (- 1022) - 52)"
  have "0 \<le> x / ?q" using pos by (simp add: less_imp_le)
  then have "0 \<le> round_half_even (x / ?q)" using rhe_ge [of 0 "x / ?q"] by simp
  then show ?thesis by (simp add: fl_pos [OF pos] less_imp_le)
qed simp

lemma ilog2_mono:
  assumes "0 < x" "x \<le> y"
  shows "ilog2 x \<le> ilog2 y"
proof -
  have "0 < y" using assms by linarith
  from ilog2_bounds [OF assms(1)] ilog2_bounds [OF this] assms(2)
  have "pow2 (ilog2 x) < pow2 (ilog2 y + 1)" by linarith
  then show ?thesis by (simp add: pow2_less_iff)
qed

lemma fl_pos_upper:
  assumes "0 < x"
  shows "fl x \<le> pow2 (max (ilog2 x) (- 1022) + 1)"
proof -
  let ?E = "max (ilog2 x) (- 1022)"
  let ?q = "pow2 (?E - 52)"
  have "x < pow2 (ilog2 x + 1)" using ilog2_bounds [OF assms] by simp
  also have "\<dots> \<le> pow2 (?E + 1)" by (rule pow2_mono) simp
  also have "pow2 (?E + 1) = 2 ^ 53 * ?q"
    using pow2_add [of 53 "?E - 52"] pow2_nat [of 53] by (simp add: algebra_simps)
  finally have "x / ?q \<le> of_int (2 ^ 53)"
    by (simp add: pos_divide_le_eq less_imp_le)
  then have "round_half_even (x / ?q) \<le> 2 ^ 53" by (rule rhe_le)
  then have "(of_int (round_half_even (x / ?q)) :: rat) \<le> of_int (2 ^ 53)"
    by (simp only: of_int_le_iff)
  then have "of_int (round_half_even (x / ?q)) * ?q \<le> 2 ^ 53 * ?q"
    by (simp add: mult_right_mono less_imp_le)
  also have "2 ^ 53 * ?q = pow2 (?E + 1)"
    using pow2_add [of 53 "?E - 52"] pow2_nat [of 53] by (simp add: algebra_simps)
  finally show ?thesis by (simp add: fl_pos [OF assms])
qed

lemma fl_pos_lower:
  assumes "pow2 e \<le> x" "- 1022 \<le> e"
  shows "pow2 e \<le> fl x"
proof -
  have pos: "0 < x" using assms(1) pow2_pos [of e] by linarith
  let ?E = "max (ilog2 x) (- 1022)"
  let ?q = "pow2 (?E - 52)"
  have "pow2 (ilog2 x) \<le> x" using ilog2_bounds [OF pos] by simp
  have "pow2 e < pow2 (ilog2 x + 1)" using ilog2_bounds [OF pos] assms(1) by linarith
  then have "e \<le> ilog2 x" by (simp add: pow2_less_iff)
  with assms(2) have E: "?E = ilog2 x" by simp
  have "2 ^ 52 * ?q = pow2 ?E"
    using pow2_add [of 52 "?E - 52"] pow2_nat [of 52] by (simp add: algebra_simps)
  also have "\<dots> \<le> x" using \<open>pow2 (ilog2 x) \<le> x\<close> by (simp only: E)
  finally have "of_int (2 ^ 52) \<le> x / ?q"
    by (simp add: pos_le_divide_eq)
  then have "2 ^ 52 \<le> round_half_even (x / ?q)" by (rule rhe_ge)
  then have "(of_int (2 ^ 52) :: rat) \<le> of_int (round_half_even (x / ?q))"
    by (simp only: of_int_le_iff)
  then have step: "2 ^ 52 * ?q \<le> of_int (round_half_even (x / ?q)) * ?q"
    by (simp add: mult_right_mono less_imp_le)
  have "pow2 e \<le> pow2 ?E" using \<open>e \<le> ilog2 x\<close> by (intro pow2_mono) simp
  also have "pow2 ?E = 2 ^ 52 * ?q"
    using pow2_add [of 52 "?E - 52"] pow2_nat [of 52] by (simp add: algebra_simps)
  also note step
  finally show ?thesis by (simp only: fl_pos [OF pos])
qed

lemma fl_mono_pos:
  assumes "0 < x" "x \<le> y"
  shows "fl x \<le> fl y"
proof -
  have ypos: "0 < y" using assms by linarith
  let ?Ex = "max (ilog2 x) (- 1022)"
  let ?Ey = "max (ilog2 y) (- 1022)"
  have le: "?Ex \<le> ?Ey" using ilog2_mono [OF assms] by simp
  show ?thesis
  proof (cases "?Ex = ?Ey")
    case True
    let ?q = "pow2 (?Ey - 52)"
    have "x / ?q \<le> y / ?q" using assms(2) by (simp add: divide_right_mono less_imp_le)
    then have "round_half_even (x / ?q) \<le> round_half_even (y / ?q)" by (rule rhe_mono)
    then have "(of_int (round_half_even (x / ?q)) :: rat) \<le> of_int (round_half_even (y / ?q))"
      by (simp only: of_int_le_iff)
    then have "of_int (round_half_even (x / ?q)) * ?q \<le> of_int (round_half_even (y / ?q)) * ?q"
      by (simp add: mult_right_mono less_imp_le)
    then show ?thesis
      unfolding fl_pos [OF assms(1)] fl_pos [OF ypos] True .
  next
    case False
    with le have lt: "?Ex < ?Ey" by (simp only: less_le) simp
    then have Ey: "?Ey = ilog2 y" "- 1022 \<le> ilog2 y" by arith+
    have "fl x \<le> pow2 (?Ex + 1)" by (rule fl_pos_upper [OF assms(1)])
    also have "\<dots> \<le> pow2 (ilog2 y)" using lt Ey by (intro pow2_mono) arith
    also have "\<dots> \<le> fl y"
      using fl_pos_lower [of "ilog2 y" y] ilog2_bounds [OF ypos] Ey(2) by simp
    finally show ?thesis .
  qed
qed

lemma fl_mono:
  assumes "x \<le> y"
  shows "fl x \<le> fl y"
proof -
  consider "0 < x" | "x \<le> 0" "0 \<le> y" | "y < 0" by linarith
  then show ?thesis
  proof cases
    case 1
    then show ?thesis using assms by (rule fl_mono_pos)
  next
    case 2
    have "fl x = - fl (- x)" by (simp add: fl_neg)
    moreover have "0 \<le> fl (- x)" using 2(1) by (intro fl_nonneg) simp
    moreover have "0 \<le> fl y" using 2(2) by (rule fl_nonneg)
    ultimately show ?thesis by linarith
  next
    case 3
    then have "fl (- y) \<le> fl (- x)" using assms by (intro fl_mono_pos) auto
    then show ?thesis by (simp add: fl_neg)
  qed
qed

lemma fl_exact_pos:
  assumes "0 < m" "m < 2 ^ 53" "- 1074 \<le> j"
  shows "fl (of_int m * pow2 j) = of_int m * pow2 j"
proof -
  define x where "x = of_int m * pow2 j"
  have pos: "0 < x" using assms(1) by (simp add: x_def)
  define E where "E = max (ilog2 x) (- 1022)"
  define q where "q = pow2 (E - 52)"
  have qpos: "0 < q" by (simp add: q_def)
  have "(of_int m :: rat) < of_int (2 ^ 53)" using assms(2) by (simp only: of_int_less_iff)
  then have "x < 2 ^ 53 * pow2 j" by (simp add: x_def mult_strict_right_mono)
  also have "\<dots> = pow2 (53 + j)" using pow2_add [of 53 j] pow2_nat [of 53] by simp
  finally have "pow2 (ilog2 x) < pow2 (53 + j)" using ilog2_bounds [OF pos] by linarith
  then have "ilog2 x < 53 + j" by (simp add: pow2_less_iff)
  with assms(3) have k: "0 \<le> j - (E - 52)" unfolding E_def by arith
  define k where "k = nat (j - (E - 52))"
  have "j = int k + (E - 52)" using k by (simp add: k_def)
  then have "pow2 j = pow2 (int k + (E - 52))" by simp
  then have pj: "pow2 j = 2 ^ k * q" by (simp only: pow2_add pow2_nat q_def)
  have "x / q = of_int (m * 2 ^ k)" using qpos by (simp add: x_def pj)
  then have "round_half_even (x / q) = m * 2 ^ k" by (simp only: rhe_of_int)
  then have "fl x = of_int (m * 2 ^ k) * q"
    by (simp only: fl_pos [OF pos] E_def [symmetric] q_def [symmetric])
  also have "\<dots> = x" by (simp add: x_def pj)
  finally show ?thesis by (simp only: x_def)
qed

lemma fl_exact:
  assumes "\<bar>m\<bar> < 2 ^ 53" "- 1074 \<le> j"
  shows "fl (of_int m * pow2 j) = of_int m * pow2 j"
proof -
  consider "0 < m" | "m = 0" | "m < 0" by linarith
  then show ?thesis
  proof cases
    case 1
    then show ?thesis using assms by (intro fl_exact_pos) auto
  next
    case 2
    then show ?thesis by simp
  next
    case 3
    then have "fl (of_int (- m) * pow2 j) = of_int (- m) * pow2 j"
      using assms by (intro fl_exact_pos) auto
    then show ?thesis using fl_neg [of "of_int m * pow2 j"] by simp
  qed
qed

lemma fl_int: "\<bar>k\<bar> < 2 ^ 53 \<Longrightarrow> fl (of_int k) = of_int k"
  using fl_exact [of k 0] by simp

lemma fl_half: "\<bar>k\<bar> < 2 ^ 53 \<Longrightarrow> fl (of_int k / 2) = of_int k / 2"
  using fl_exact [of k "- 1"] by (simp add: pow2_def)

lemma fl_rel_upper:
  assumes "pow2 (- 1022) \<le> x"
  shows "fl x \<le> x * (1 + 1 / 2 ^ 53)"
proof -
  have pos: "0 < x" using assms pow2_pos [of "- 1022"] by linarith
  define E where "E = max (ilog2 x) (- 1022)"
  define q where "q = pow2 (E - 52)"
  have qpos: "0 < q" by (simp add: q_def)
  have "pow2 (- 1022) < pow2 (ilog2 x + 1)" using ilog2_bounds [OF pos] assms by linarith
  then have "- 1022 \<le> ilog2 x" by (simp add: pow2_less_iff)
  then have E: "E = ilog2 x" by (simp add: E_def)
  have "pow2 E = pow2 (53 + (E - 52 - 1))" by simp
  also have "\<dots> = 2 ^ 53 * (q / 2)"
    by (simp only: pow2_add pow2_diff pow2_nat [of 53, simplified] q_def) (simp add: pow2_def)
  finally have "2 ^ 53 * (q / 2) \<le> x" using ilog2_bounds [OF pos] by (simp only: E)
  then have half: "q / 2 \<le> x / 2 ^ 53" by (simp add: pos_le_divide_eq algebra_simps)
  have "of_int (round_half_even (x / q)) \<le> x / q + 1 / 2" by (rule rhe_upper)
  then have "of_int (round_half_even (x / q)) * q \<le> (x / q + 1 / 2) * q"
    using qpos by (simp only: mult_right_mono less_imp_le)
  also have "\<dots> = x + q / 2" using qpos by (simp add: field_simps)
  also have "\<dots> \<le> x + x / 2 ^ 53" using half by simp
  also have "\<dots> = x * (1 + 1 / 2 ^ 53)" by (simp add: algebra_simps)
  finally show ?thesis by (simp only: fl_pos [OF pos] E_def [symmetric] q_def [symmetric])
qed

subsection \<open>Integer and floating-point square roots\<close>

lemma fl_rel_lower:
  assumes "pow2 (- 1022) \<le> x"
  shows "x * (1 - 1 / 2 ^ 53) \<le> fl x"
proof -
  have pos: "0 < x" using assms pow2_pos [of "- 1022"] by linarith
  define E where "E = max (ilog2 x) (- 1022)"
  define q where "q = pow2 (E - 52)"
  have qpos: "0 < q" by (simp add: q_def)
  have "pow2 (- 1022) < pow2 (ilog2 x + 1)" using ilog2_bounds [OF pos] assms by linarith
  then have "- 1022 \<le> ilog2 x" by (simp add: pow2_less_iff)
  then have E: "E = ilog2 x" by (simp add: E_def)
  have "pow2 E = pow2 (53 + (E - 52 - 1))" by simp
  also have "\<dots> = 2 ^ 53 * (q / 2)"
    by (simp only: pow2_add pow2_diff pow2_nat [of 53, simplified] q_def) (simp add: pow2_def)
  finally have "2 ^ 53 * (q / 2) \<le> x" using ilog2_bounds [OF pos] by (simp only: E)
  then have half: "q / 2 \<le> x / 2 ^ 53" by (simp add: pos_le_divide_eq algebra_simps)
  have "x * (1 - 1 / 2 ^ 53) = x - x / 2 ^ 53" by (simp add: algebra_simps)
  also have "\<dots> \<le> x - q / 2" using half by simp
  also have "\<dots> = (x / q - 1 / 2) * q" using qpos by (simp add: field_simps)
  also have "\<dots> \<le> of_int (round_half_even (x / q)) * q"
    using qpos rhe_lower [of "x / q"] by (simp only: mult_right_mono less_imp_le)
  finally show ?thesis by (simp only: fl_pos [OF pos] E_def [symmetric] q_def [symmetric])
qed


lemma overflows_bound: "\<bar>r\<bar> \<le> 2 ^ 1000 \<Longrightarrow> \<not> overflows r"
proof -
  assume "\<bar>r\<bar> \<le> 2 ^ 1000"
  moreover have "(2::rat) ^ 1000 < 2 ^ 1024" by (rule power_strict_increasing) simp_all
  ultimately show ?thesis by (simp add: overflows_def)
qed

lemma isqrt_loop_spec:
  "0 \<le> r \<Longrightarrow> r * r \<le> n \<Longrightarrow> n < (r + 2 ^ k) * (r + 2 ^ k) \<Longrightarrow>
   0 \<le> isqrt_loop k n r \<and> isqrt_loop k n r * isqrt_loop k n r \<le> n
     \<and> n < (isqrt_loop k n r + 1) * (isqrt_loop k n r + 1)"
proof (induction k arbitrary: r)
  case 0
  then show ?case by (simp add: isqrt_loop.simps [of 0])
next
  case (Suc k)
  define r' where "r' = r + 2 ^ k"
  have r': "0 \<le> r'" using Suc.prems(1) by (simp add: r'_def)
  have unfold: "isqrt_loop (Suc k) n r = isqrt_loop k n (if r' * r' \<le> n then r' else r)"
    by (simp add: isqrt_loop.simps [of "Suc k"] r'_def Let_def)
  show ?case
  proof (cases "r' * r' \<le> n")
    case True
    have eq: "r' + 2 ^ k = r + 2 ^ Suc k" by (simp add: r'_def)
    have "n < (r' + 2 ^ k) * (r' + 2 ^ k)" unfolding eq by (rule Suc.prems(3))
    from Suc.IH [OF r' True this] show ?thesis by (simp only: unfold True if_True)
  next
    case False
    then have "n < (r + 2 ^ k) * (r + 2 ^ k)" by (simp add: r'_def)
    from Suc.IH [OF Suc.prems(1,2) this] show ?thesis by (simp only: unfold False if_False)
  qed
qed

lemma isqrt_spec:
  assumes "0 \<le> n"
  shows "0 \<le> isqrt n \<and> isqrt n * isqrt n \<le> n \<and> n < (isqrt n + 1) * (isqrt n + 1)"
proof -
  define k where "k = bit_length (nat n)"
  have "nat n < 2 ^ k"
  proof (cases "nat n = 0")
    case True
    then show ?thesis by simp
  next
    case False
    then show ?thesis using bit_length_bounds [of "nat n"] by (simp add: k_def)
  qed
  then have "int (nat n) < int (2 ^ k)" by (simp only: of_nat_less_iff)
  then have lt: "n < 2 ^ k" using assms by simp
  have "(1::int) \<le> 2 ^ k" by simp
  then have "(2::int) ^ k * 1 \<le> 2 ^ k * 2 ^ k" by (intro mult_left_mono) simp_all
  then have "(2::int) ^ k \<le> 2 ^ k * 2 ^ k" by simp
  with lt have "n < 2 ^ k * 2 ^ k" by linarith
  then have "n < (0 + 2 ^ k) * (0 + 2 ^ k)" by simp
  from isqrt_loop_spec [OF _ _ this] assms show ?thesis
    by (simp add: isqrt_def k_def)
qed

lemma square_less_mono:
  fixes s t :: int
  assumes "0 \<le> s" "s < t"
  shows "(s + 1) * (s + 1) \<le> t * t"
  using assms by (intro mult_mono) simp_all

lemma isqrt_unique:
  assumes "0 \<le> s" "s * s \<le> n" "n < (s + 1) * (s + 1)"
  shows "isqrt n = s"
proof -
  have n: "0 \<le> n" using assms(1,2) by (meson mult_nonneg_nonneg order_trans)
  note t = isqrt_spec [OF n]
  have "\<not> s < isqrt n"
  proof
    assume "s < isqrt n"
    from square_less_mono [OF assms(1) this] t assms(3) show False by linarith
  qed
  moreover have "\<not> isqrt n < s"
  proof
    assume "isqrt n < s"
    from square_less_mono [OF _ this] t assms(2) show False by linarith
  qed
  ultimately show ?thesis by simp
qed

lemma fsqrt_eval:
  assumes "pow2 (2 * e) \<le> x" "x < pow2 (2 * e + 2)" "0 \<le> m"
    and "of_int (m * m) \<le> x / (pow2 (e - 52) * pow2 (e - 52))"
    and "x / (pow2 (e - 52) * pow2 (e - 52)) < of_int ((m + 1) * (m + 1))"
  shows "fsqrt x =
    (if x / (pow2 (e - 52) * pow2 (e - 52)) < (of_int m + 1 / 2) * (of_int m + 1 / 2)
        \<or> (x / (pow2 (e - 52) * pow2 (e - 52)) = (of_int m + 1 / 2) * (of_int m + 1 / 2) \<and> even m)
     then of_int m else of_int (m + 1)) * pow2 (e - 52)"
proof -
  have pos: "0 < x" using assms(1) pow2_pos [of "2 * e"] by linarith
  note b = ilog2_bounds [OF pos]
  have "pow2 (ilog2 x) < pow2 (2 * e + 2)" using b assms(2) by linarith
  then have 1: "ilog2 x < 2 * e + 2" by (simp add: pow2_less_iff)
  have "pow2 (2 * e) < pow2 (ilog2 x + 1)" using b assms(1) by linarith
  then have 2: "2 * e \<le> ilog2 x" by (simp add: pow2_less_iff)
  from 1 2 have e: "ilog2 x div 2 = e" by linarith
  define y where "y = x / (pow2 (e - 52) * pow2 (e - 52))"
  have "m * m \<le> \<lfloor>y\<rfloor>" using assms(4) by (simp only: y_def [symmetric] le_floor_iff)
  moreover have "\<lfloor>y\<rfloor> < (m + 1) * (m + 1)"
    using assms(5) by (simp only: y_def [symmetric] floor_less_iff)
  ultimately have m: "isqrt \<lfloor>y\<rfloor> = m" using assms(3) by (intro isqrt_unique)
  have "x \<noteq> 0" using pos by simp
  then show ?thesis
    by (simp only: fsqrt_def e Let_def y_def [symmetric] m if_False)
qed

subsection \<open>Floors and ceilings of rational numerals\<close>

lemma floor_rat_numeral [simp]: "\<lfloor>(numeral a :: rat) / numeral b\<rfloor> = numeral a div numeral b"
  using floor_divide_of_int_eq [of "numeral a" "numeral b", where ?'a = rat] by simp

lemma ceiling_rat_numeral [simp]:
  "\<lceil>(numeral a :: rat) / numeral b\<rceil> = - (- numeral a div numeral b)"
  using floor_divide_of_int_eq [of "- numeral a" "numeral b", where ?'a = rat]
  by (simp add: ceiling_def)

lemma floor_rat_one_numeral [simp]: "\<lfloor>(1 :: rat) / numeral b\<rfloor> = 1 div numeral b"
  using floor_divide_of_int_eq [of 1 "numeral b", where ?'a = rat] by simp

lemma ceiling_rat_one_numeral [simp]: "\<lceil>(1 :: rat) / numeral b\<rceil> = - (- 1 div numeral b)"
  using floor_divide_of_int_eq [of "- 1" "numeral b", where ?'a = rat]
  by (simp add: ceiling_def)

subsection \<open>Bounds on the square root and exact ceilings\<close>

lemma pow2_shift: "a = int n + b \<Longrightarrow> pow2 a = 2 ^ n * pow2 b"
  by (simp add: pow2_add pow2_nat)

lemma fsqrt_bounds:
  assumes "0 < x"
  shows "pow2 (ilog2 x div 2) \<le> fsqrt x \<and> fsqrt x \<le> pow2 (ilog2 x div 2 + 1)"
proof -
  define e where "e = ilog2 x div 2"
  define q where "q = pow2 (e - 52)"
  define y where "y = x / (q * q)"
  define m where "m = isqrt \<lfloor>y\<rfloor>"
  have qpos: "0 < q" by (simp add: q_def)
  have qq: "q * q = pow2 (2 * e - 104)" by (simp add: q_def pow2_add [symmetric])
  note b = ilog2_bounds [OF assms]
  have "2 * e \<le> ilog2 x" "ilog2 x + 1 \<le> 2 * e + 2" by (simp_all add: e_def)
  then have "pow2 (2 * e) \<le> x" "x < pow2 (2 * e + 2)"
    using b pow2_mono [of "2 * e" "ilog2 x"] pow2_mono [of "ilog2 x + 1" "2 * e + 2"] by linarith+
  moreover have "pow2 (2 * e) = 2 ^ 104 * (q * q)"
    unfolding qq by (rule pow2_shift) simp
  moreover have "pow2 (2 * e + 2) = 2 ^ 106 * (q * q)"
    unfolding qq by (rule pow2_shift) simp
  ultimately have y: "2 ^ 104 \<le> y" "y < 2 ^ 106"
    using qpos by (simp_all add: y_def pos_le_divide_eq pos_divide_less_eq)
  have "(of_int (2 ^ 104) :: rat) \<le> y" using y(1) by simp
  then have f1: "2 ^ 104 \<le> \<lfloor>y\<rfloor>" by (simp only: le_floor_iff)
  have "y < of_int (2 ^ 106)" using y(2) by simp
  then have f2: "\<lfloor>y\<rfloor> < 2 ^ 106" by (simp only: floor_less_iff)
  have "(0::int) \<le> 2 ^ 104" by simp
  with f1 have "0 \<le> \<lfloor>y\<rfloor>" by (rule order_trans [rotated])
  note s = isqrt_spec [OF this, folded m_def]
  have s1: "m * m \<le> \<lfloor>y\<rfloor>" and s2: "\<lfloor>y\<rfloor> < (m + 1) * (m + 1)" and s0: "0 \<le> m"
    using s by simp_all
  have m_lo: "2 ^ 52 \<le> m"
  proof (rule ccontr)
    assume "\<not> 2 ^ 52 \<le> m"
    then have "m + 1 \<le> 2 ^ 52" by simp
    then have "(m + 1) * (m + 1) \<le> 2 ^ 52 * 2 ^ 52" using s0 by (intro mult_mono) simp_all
    also have "(2::int) ^ 52 * 2 ^ 52 = 2 ^ 104" by simp
    finally have "(m + 1) * (m + 1) \<le> \<lfloor>y\<rfloor>" using f1 by (rule order_trans)
    with s2 show False by linarith
  qed
  have m_hi: "m + 1 \<le> 2 ^ 53"
  proof (rule ccontr)
    assume "\<not> m + 1 \<le> 2 ^ 53"
    then have "2 ^ 53 \<le> m" by simp
    then have "2 ^ 53 * 2 ^ 53 \<le> m * m" by (intro mult_mono) simp_all
    moreover have "(2::int) ^ 53 * 2 ^ 53 = 2 ^ 106" by simp
    ultimately have "2 ^ 106 \<le> m * m" by (simp only:)
    then have "2 ^ 106 \<le> \<lfloor>y\<rfloor>" using s1 by (rule order_trans)
    with f2 show False by linarith
  qed
  define r where "r = (if y < (of_int m + 1 / 2) * (of_int m + 1 / 2)
        \<or> (y = (of_int m + 1 / 2) * (of_int m + 1 / 2) \<and> even m) then m else m + 1)"
  have r: "2 ^ 52 \<le> r" "r \<le> 2 ^ 53" using m_lo m_hi by (auto simp: r_def)
  have fs: "fsqrt x = of_int r * q"
    using assms by (simp add: fsqrt_def Let_def e_def [symmetric] q_def [symmetric]
        y_def [symmetric] m_def [symmetric] r_def)
  have "(of_int (2 ^ 52) :: rat) \<le> of_int r" "(of_int r :: rat) \<le> of_int (2 ^ 53)"
    using r by (simp_all only: of_int_le_iff)
  then have "2 ^ 52 * q \<le> of_int r * q" "of_int r * q \<le> 2 ^ 53 * q"
    using qpos by (simp_all add: mult_right_mono)
  moreover have "pow2 e = 2 ^ 52 * q"
    unfolding q_def by (rule pow2_shift) simp
  moreover have "pow2 (e + 1) = 2 ^ 53 * q"
    unfolding q_def by (rule pow2_shift) simp
  ultimately show ?thesis by (simp add: fs e_def)
qed

lemma fsqrt_nonneg: "0 \<le> x \<Longrightarrow> 0 \<le> fsqrt x"
proof (cases "x = 0")
  case True
  then show ?thesis by (simp add: fsqrt_def)
next
  case False
  assume "0 \<le> x"
  with False have "0 < x" by simp
  from fsqrt_bounds [OF this] pow2_pos [of "ilog2 x div 2"] show ?thesis by linarith
qed

lemma fsqrt_upper:
  assumes "0 \<le> x" "x \<le> 2 ^ 106"
  shows "fsqrt x \<le> 2 ^ 54"
proof (cases "x = 0")
  case True
  then show ?thesis by (simp add: fsqrt_def)
next
  case False
  with assms have pos: "0 < x" by simp
  have "pow2 (ilog2 x) \<le> x" using ilog2_bounds [OF pos] by simp
  also have "x < pow2 107" using assms(2) by (simp add: pow2_def)
  finally have "ilog2 x < 107" by (simp add: pow2_less_iff)
  then have "ilog2 x div 2 + 1 \<le> 54" by simp
  then have "pow2 (ilog2 x div 2 + 1) \<le> pow2 54" by (rule pow2_mono)
  with fsqrt_bounds [OF pos] show ?thesis by (simp add: pow2_def)
qed

lemma ceiling_fl_div:
  assumes "0 < n" "n < 2 ^ 53" "0 < c" "c \<le> 2 ^ 54"
  shows "\<lceil>fl (of_int n / of_int c)\<rceil> = \<lceil>(of_int n / of_int c :: rat)\<rceil>"
proof -
  define x :: rat where "x = of_int n / of_int c"
  define k where "k = \<lceil>x\<rceil>"
  have cpos: "(0::rat) < of_int c" using assms(3) by simp
  have xpos: "0 < x" using assms(1,3) by (simp add: x_def)
  have k: "of_int k - 1 < x" "x \<le> of_int k" by (simp_all add: k_def) linarith
  have "(1::rat) \<le> of_int c" using assms(3) by simp
  then have "x \<le> of_int n" using assms(1) by (simp add: x_def pos_divide_le_eq mult_left_mono)
  then have "k \<le> n" by (simp add: k_def ceiling_le_iff)
  moreover have "0 < k" using xpos by (simp add: k_def)
  ultimately have kb: "\<bar>k\<bar> < 2 ^ 53" using assms(2) by simp
  have up: "fl x \<le> of_int k" using fl_mono [OF k(2)] fl_int [OF kb] by simp
  have "(of_int c :: rat) \<le> of_int (2 ^ 54)" using assms(4) by (simp only: of_int_le_iff)
  then have "(of_int c :: rat) \<le> 2 ^ 54 * of_int n"
    using assms(1) by (simp add: order_trans [OF _ mult_left_mono [of 1 "of_int n :: rat" "2 ^ 54"]])
  then have "1 / 2 ^ 54 \<le> x" using cpos by (simp add: x_def field_simps)
  moreover have "pow2 (- 1022) \<le> 1 / 2 ^ 54"
    using pow2_mono [of "- 1022" "- 54"] by (simp add: pow2_def)
  ultimately have "pow2 (- 1022) \<le> x" by linarith
  from fl_rel_lower [OF this] have lo: "x - x / 2 ^ 53 \<le> fl x" by (simp add: algebra_simps)
  have "(of_int n :: rat) < of_int (2 ^ 53)" using assms(2) by (simp only: of_int_less_iff)
  then have "x / 2 ^ 53 < 1 / of_int c" using cpos by (simp add: x_def field_simps)
  have "of_int (k - 1) * of_int c < (of_int n :: rat)"
    using k(1) cpos by (simp add: x_def pos_less_divide_eq)
  then have "(of_int ((k - 1) * c) :: rat) < of_int n" by simp
  then have "(k - 1) * c < n" by (simp only: of_int_less_iff)
  then have "(k - 1) * c \<le> n - 1" by simp
  then have "(of_int ((k - 1) * c) :: rat) \<le> of_int (n - 1)" by (simp only: of_int_le_iff)
  then have "of_int (k - 1) \<le> (of_int n - 1) / (of_int c :: rat)"
    using cpos by (simp add: pos_le_divide_eq)
  also have "\<dots> = x - 1 / of_int c" by (simp add: x_def diff_divide_distrib)
  also have "\<dots> < x - x / 2 ^ 53" using \<open>x / 2 ^ 53 < 1 / of_int c\<close> by simp
  also note lo
  finally have "of_int k - 1 < fl x" by simp
  with up have "\<lceil>fl x\<rceil> = k" by (simp add: ceiling_eq_iff)
  then show ?thesis by (simp add: x_def k_def)
qed

subsection \<open>The float operations on exactly representable sizes\<close>

lemma int_truediv_pos:
  assumes "0 < a" "a < 2 ^ 53" "0 < b"
  shows "int_truediv a b = Inr (fl (of_int a / of_int b))"
    and "0 \<le> fl (of_int a / of_int b)" and "fl (of_int a / of_int b) \<le> of_int a"
proof -
  have b1: "(1::rat) \<le> of_int b" using assms(3) by simp
  have "(of_int a / of_int b :: rat) \<le> of_int a"
    using assms(1) b1 by (simp add: pos_divide_le_eq mult_left_mono)
  from fl_mono [OF this] fl_int [of a] assms(1,2)
  show up: "fl (of_int a / of_int b) \<le> of_int a" by simp
  have "(0::rat) \<le> of_int a / of_int b" using assms(1,3) by simp
  then show lo: "0 \<le> fl (of_int a / of_int b)" by (rule fl_nonneg)
  have "(of_int a :: rat) \<le> of_int (2 ^ 53)" using assms(2) by simp
  also have "(of_int (2 ^ 53) :: rat) \<le> 2 ^ 1000" by simp
  finally have "\<bar>fl (of_int a / of_int b)\<bar> \<le> 2 ^ 1000" using up lo by simp
  then have "\<not> overflows (fl (of_int a / of_int b))" by (rule overflows_bound)
  then show "int_truediv a b = Inr (fl (of_int a / of_int b))"
    using assms(3) by (simp add: int_truediv_def)
qed

lemma int_to_float_exact: "\<bar>n\<bar> < 2 ^ 53 \<Longrightarrow> int_to_float n = Inr (of_int n)"
proof -
  assume n: "\<bar>n\<bar> < 2 ^ 53"
  then have "(of_int \<bar>n\<bar> :: rat) \<le> of_int (2 ^ 53)" by simp
  also have "(of_int (2 ^ 53) :: rat) \<le> 2 ^ 1000" by simp
  finally have "\<not> overflows (of_int n)" by (intro overflows_bound) simp
  then show ?thesis using fl_int [OF n] by (simp add: int_to_float_def)
qed

lemma float_mul_finite:
  assumes "0 \<le> x" "x \<le> 2 ^ 53" "0 \<le> y" "y \<le> 2 ^ 53"
  shows "float_mul x y = Finite (fl (x * y))" and "0 \<le> fl (x * y)" and "fl (x * y) \<le> 2 ^ 106"
proof -
  have "x * y \<le> 2 ^ 53 * 2 ^ 53" using assms by (intro mult_mono) simp_all
  then have "x * y \<le> of_int 1 * pow2 106" by (simp add: pow2_def)
  from fl_mono [OF this] fl_exact [of 1 106]
  show up: "fl (x * y) \<le> 2 ^ 106" by (simp add: pow2_def)
  show lo: "0 \<le> fl (x * y)" using assms by (intro fl_nonneg) simp
  have "(2::rat) ^ 106 \<le> 2 ^ 1000" by simp
  with up lo have "\<bar>fl (x * y)\<bar> \<le> 2 ^ 1000" by simp
  then have "\<not> overflows (fl (x * y))" by (rule overflows_bound)
  then show "float_mul x y = Finite (fl (x * y))" by (simp add: float_mul_def)
qed

subsection \<open>The grid size on exactly representable inputs\<close>

lemma fsqrt_64: "fsqrt 64 = 8"
proof -
  have "fsqrt 64 =
    (if 64 / (pow2 (3 - 52) * pow2 (3 - 52)) < (of_int (2 ^ 52) + 1 / 2) * (of_int (2 ^ 52) + 1 / 2)
        \<or> (64 / (pow2 (3 - 52) * pow2 (3 - 52)) = (of_int (2 ^ 52) + 1 / 2) * (of_int (2 ^ 52) + 1 / 2)
            \<and> even ((2::int) ^ 52))
     then of_int (2 ^ 52) else of_int (2 ^ 52 + 1)) * pow2 (3 - 52)"
    by (rule fsqrt_eval) (simp_all add: pow2_def)
  then show ?thesis by (simp add: pow2_def)
qed

lemma fsqrt_half: "fsqrt (1 / 2) = 6369051672525773 / 9007199254740992"
proof -
  have "fsqrt (1 / 2) =
    (if (1 / 2) / (pow2 (- 1 - 52) * pow2 (- 1 - 52))
          < (of_int 6369051672525772 + 1 / 2) * (of_int 6369051672525772 + 1 / 2)
        \<or> ((1 / 2) / (pow2 (- 1 - 52) * pow2 (- 1 - 52))
              = (of_int 6369051672525772 + 1 / 2) * (of_int 6369051672525772 + 1 / 2)
            \<and> even (6369051672525772::int))
     then of_int 6369051672525772 else of_int (6369051672525772 + 1)) * pow2 (- 1 - 52)"
    by (rule fsqrt_eval) (simp_all add: pow2_def)
  then show ?thesis by (simp add: pow2_def)
qed

lemma calculate_grid_size_formula:
  assumes "0 < atlas_width g" "atlas_width g < 2 ^ 53"
    and "0 < sprite_width g" "sprite_width g < 2 ^ 53"
    and "0 < n" "n < 2 ^ 53"
  shows "calculate_grid_size g n =
    (let c = spec_columns (atlas_width g) (sprite_width g) n
     in if c = 0 then Inl ZeroDivisionError else Inr (c, spec_rows n c))"
proof -
  define ratio where "ratio = fl (of_int (atlas_width g) / of_int (sprite_width g))"
  note r = int_truediv_pos [OF assms(1,2,3), folded ratio_def]
  have "(of_int (atlas_width g) :: rat) \<le> 2 ^ 53" using assms(2) by simp
  with r(3) have r53: "ratio \<le> 2 ^ 53" by linarith
  have nf: "int_to_float n = Inr (of_int n)" using assms(5,6) by (intro int_to_float_exact) simp
  have n53: "(0::rat) \<le> of_int n" "(of_int n :: rat) \<le> 2 ^ 53" using assms(5,6) by simp_all
  define v where "v = fl (ratio * of_int n)"
  note m = float_mul_finite [OF r(2) r53 n53, folded v_def]
  define c where "c = \<lfloor>fsqrt v\<rfloor>"
  have c_def': "spec_columns (atlas_width g) (sprite_width g) n = c"
    by (simp add: spec_columns_def c_def v_def ratio_def)
  have "0 \<le> fsqrt v" using m(2) by (rule fsqrt_nonneg)
  then have c0: "0 \<le> c" by (simp add: c_def)
  have "fsqrt v \<le> 2 ^ 54" using m(2,3) by (rule fsqrt_upper)
  then have "fsqrt v \<le> of_int (2 ^ 54)" by simp
  then have "\<lfloor>fsqrt v\<rfloor> \<le> \<lfloor>(of_int (2 ^ 54) :: rat)\<rfloor>" by (rule floor_mono)
  then have c54: "c \<le> 2 ^ 54" unfolding c_def by (simp only: floor_of_int)
  have start: "calculate_grid_size g n =
      (case int_truediv n c of Inl e \<Rightarrow> Inl e
       | Inr q \<Rightarrow> (case math_ceil (Finite q) of Inl e \<Rightarrow> Inl e | Inr rows \<Rightarrow> Inr (c, rows)))"
    using assms(5) m(2)
    by (simp add: calculate_grid_size_def r(1) nf m(1) math_sqrt_def math_floor_def c_def [symmetric] not_less)
  show ?thesis
  proof (cases "c = 0")
    case True
    then show ?thesis by (simp add: start c_def' int_truediv_def)
  next
    case False
    with c0 have cpos: "0 < c" by simp
    note d = int_truediv_pos [OF assms(5,6) cpos]
    have "\<lceil>fl (of_int n / of_int c)\<rceil> = spec_rows n c"
      unfolding spec_rows_def using assms(5,6) cpos c54 by (rule ceiling_fl_div)
    then show ?thesis using False by (simp add: start c_def' d(1) math_ceil_def)
  qed
qed

subsection \<open>The Grid Planner\<close>

lemma spec_columns_default: "spec_columns 512 32 4 = 8"
  using fl_int [of 16] fl_int [of 64] by (simp add: spec_columns_def fsqrt_64)

lemma spec_rows_default: "spec_rows 4 8 = 1"
  by (simp add: spec_rows_def)

lemma fl_one_half: "fl (1 / 2) = 1 / 2"
  using fl_half [of 1] by simp

lemma spec_columns_narrow: "spec_columns 16 32 1 = 0"
  by (simp add: spec_columns_def fl_one_half fsqrt_half)

text \<open>
  Claim C1. For every image count \<open>N \<ge> 1\<close> and positive sprite and atlas sizes the Grid
  Planner returns \<open>columns \<ge> 1\<close>, so that \<open>rows = ceil(N / columns)\<close> never divides by
  zero. The code has no such guard: with an atlas 16 wide, sprites 32 wide and one image,
  \<open>floor(sqrt(0.5))\<close> is \<open>0\<close> and the division raises ZeroDivisionError.
\<close>

theorem grid_columns_zero_raises:
  "calculate_grid_size (default_generator\<lparr>atlas_width := 16\<rparr>) 1 = Inl ZeroDivisionError"
  using calculate_grid_size_formula [of "default_generator\<lparr>atlas_width := 16\<rparr>" 1]
  by (simp add: default_generator_def spec_columns_narrow)



subsection \<open>The File Enumerator\<close>

lemma collect_images_eq:
  "collect_images dir names acc = acc @ map (join dir) (filter has_supported_extension names)"
  by (induction names arbitrary: acc) (simp_all add: has_supported_extension_def Let_def)

lemma append_le_cancel: "(p @ x \<le> p @ y) = (x \<le> (y :: string))"
  by (induction p) simp_all

lemma sort_map_prefix: "sort (map ((@) p) xs) = map ((@) p) (sort (xs :: string list))"
proof (rule properties_for_sort)
  show "mset (map ((@) p) (sort xs)) = mset (map ((@) p) xs)" by simp
  have "sorted (sort xs)" by simp
  then show "sorted (map ((@) p) (sort xs))"
    by (simp add: sorted_map append_le_cancel)
qed

lemma join_entry:
  assumes "CHR ''/'' \<notin> set n"
  shows "join dir n = (if dir = [] \<or> endswith dir ''/'' then dir else dir @ ''/'') @ n"
proof -
  have "\<not> startswith n ''/''" using assms by (cases n) (auto simp: startswith_def)
  then show ?thesis by (simp add: join_def)
qed

lemma get_image_files_directory:
  assumes "fs w (input_dir g) = Directory names"
  shows "get_image_files w g =
    Inr (sort (map (join (input_dir g)) (filter has_supported_extension names)))"
  using assms by (simp add: get_image_files_def exists_path_def listdir_def collect_images_eq)

lemma get_image_files_missing:
  "get_image_files w g = Inl FileNotFoundError \<longleftrightarrow> fs w (input_dir g) = Missing"
  by (cases "fs w (input_dir g)")
    (simp_all add: get_image_files_def exists_path_def listdir_def)

lemma sort_join_entries:
  assumes "\<forall>n \<in> set names. CHR ''/'' \<notin> set n"
  shows "sort (map (join dir) names) = map (join dir) (sort names)"
proof -
  define pre where "pre = (if dir = [] \<or> endswith dir ''/'' then dir else dir @ ''/'')"
  have 1: "map (join dir) names = map ((@) pre) names"
    using assms by (simp add: join_entry pre_def)
  have "\<forall>n \<in> set (sort names). CHR ''/'' \<notin> set n" using assms by simp
  then have 2: "map (join dir) (sort names) = map ((@) pre) (sort names)"
    by (simp add: join_entry pre_def)
  show ?thesis by (simp only: 1 2 sort_map_prefix)
qed

lemma create_atlas_no_images:
  "get_image_files w g = Inr [] \<Longrightarrow> create_atlas w g = Inl ValueError"
  by (simp add: create_atlas_def)

text \<open>
  Claim C7. File enumeration returns the lexicographically sorted list of the directory
  entries whose lowercased extension is \<open>.png\<close>, \<open>.jpg\<close>, \<open>.jpeg\<close>, \<open>.webp\<close> or
  \<open>.webm\<close> (as paths below the directory, in the order of the entry names); it fails with
  FileNotFoundError exactly when the path does not exist; a directory without such an
  entry gives the empty list, which \<open>create_atlas\<close> rejects with ValueError.
\<close>

theorem file_enumeration:
  "(get_image_files w g = Inl FileNotFoundError \<longleftrightarrow> fs w (input_dir g) = Missing) \<and>
   (fs w (input_dir g) = Directory names \<longrightarrow>
     (\<exists>files. get_image_files w g = Inr files \<and> sorted files \<and>
        mset files = mset (map (join (input_dir g)) (filter has_supported_extension names)) \<and>
        ((\<forall>n \<in> set names. CHR ''/'' \<notin> set n) \<longrightarrow>
           files = map (join (input_dir g)) (sort (filter has_supported_extension names))) \<and>
        (filter has_supported_extension names = [] \<longrightarrow>
           files = [] \<and> create_atlas w g = Inl ValueError)))"
proof (intro conjI impI)
  show "get_image_files w g = Inl FileNotFoundError \<longleftrightarrow> fs w (input_dir g) = Missing"
    by (rule get_image_files_missing)
next
  assume dir: "fs w (input_dir g) = Directory names"
  let ?entries = "filter has_supported_extension names"
  let ?files = "sort (map (join (input_dir g)) ?entries)"
  note files = get_image_files_directory [OF dir]
  have order: "?files = map (join (input_dir g)) (sort ?entries)"
    if "\<forall>n \<in> set names. CHR ''/'' \<notin> set n"
    using that by (intro sort_join_entries) simp
  have none: "?files = [] \<and> create_atlas w g = Inl ValueError" if "?entries = []"
    using that files by (simp add: create_atlas_no_images)
  show "\<exists>files. get_image_files w g = Inr files \<and> sorted files \<and>
        mset files = mset (map (join (input_dir g)) ?entries) \<and>
        ((\<forall>n \<in> set names. CHR ''/'' \<notin> set n) \<longrightarrow>
           files = map (join (input_dir g)) (sort ?entries)) \<and>
        (?entries = [] \<longrightarrow> files = [] \<and> create_atlas w g = Inl ValueError)"
  proof (intro exI [of _ ?files] conjI impI)
    show "get_image_files w g = Inr ?files" by (rule files)
    show "sorted ?files" by simp
    show "mset ?files = mset (map (join (input_dir g)) ?entries)" by simp
    show "?files = map (join (input_dir g)) (sort ?entries)"
      if "\<forall>n \<in> set names. CHR ''/'' \<notin> set n" using that by (rule order)
    show "?files = []" if "?entries = []" using none [OF that] by simp
    show "create_atlas w g = Inl ValueError" if "?entries = []" using none [OF that] by simp
  qed
qed

lemma demo_entries:
  "filter has_supported_extension [''b.png'', ''notes.txt'', ''A.JPG'', ''bad.png'', ''c.webp'']
     = [''b.png'', ''A.JPG'', ''bad.png'', ''c.webp'']"
  by (simp add: has_supported_extension_def supported_formats_def splitext_def rfind_def
      splitext_loop.simps lower_def lower_char_def ascii_upper_def ascii_lower_def)

lemma notes_entry: "filter has_supported_extension [''notes.txt''] = []"
  by (simp add: has_supported_extension_def supported_formats_def splitext_def rfind_def
      splitext_loop.simps lower_def lower_char_def ascii_upper_def ascii_lower_def)

lemma demo_sorted_entries:
  "sort [''b.png'', ''A.JPG'', ''bad.png'', ''c.webp''] = [''A.JPG'', ''b.png'', ''bad.png'', ''c.webp'']"
  by simp

theorem file_enumeration_witness:
  "fs demo_world (input_dir default_generator)
     = Directory [''b.png'', ''notes.txt'', ''A.JPG'', ''bad.png'', ''c.webp'']
   \<and> get_image_files demo_world default_generator
     = Inr [''sprites/A.JPG'', ''sprites/b.png'', ''sprites/bad.png'', ''sprites/c.webp'']
   \<and> fs empty_world (input_dir default_generator) = Directory [''notes.txt'']
   \<and> get_image_files empty_world default_generator = Inr []
   \<and> create_atlas empty_world default_generator = Inl ValueError
   \<and> fs demo_world (input_dir (default_generator\<lparr>input_dir := ''nowhere''\<rparr>)) = Missing
   \<and> get_image_files demo_world (default_generator\<lparr>input_dir := ''nowhere''\<rparr>) = Inl FileNotFoundError"
proof -
  have d: "fs demo_world (input_dir default_generator)
     = Directory [''b.png'', ''notes.txt'', ''A.JPG'', ''bad.png'', ''c.webp'']"
    by (simp add: demo_world_def default_generator_def)
  have slash: "\<forall>n \<in> set [''b.png'', ''notes.txt'', ''A.JPG'', ''bad.png'', ''c.webp'']. CHR ''/'' \<notin> set n"
    by simp
  from file_enumeration [of demo_world default_generator] d slash
  have 1: "get_image_files demo_world default_generator
     = Inr (map (join (input_dir default_generator))
         (sort (filter has_supported_extension [''b.png'', ''notes.txt'', ''A.JPG'', ''bad.png'', ''c.webp''])))"
    by blast
  have 2: "map (join (input_dir default_generator))
         (sort (filter has_supported_extension [''b.png'', ''notes.txt'', ''A.JPG'', ''bad.png'', ''c.webp'']))
     = [''sprites/A.JPG'', ''sprites/b.png'', ''sprites/bad.png'', ''sprites/c.webp'']"
    by (simp only: demo_entries demo_sorted_entries)
      (simp add: default_generator_def join_def startswith_def endswith_def)
  have e: "fs empty_world (input_dir default_generator) = Directory [''notes.txt'']"
    by (simp add: empty_world_def default_generator_def)
  from file_enumeration [of empty_world default_generator "[''notes.txt'']"] e notes_entry
  have 3: "get_image_files empty_world default_generator = Inr []"
    and 4: "create_atlas empty_world default_generator = Inl ValueError"
    by auto
  have m: "fs demo_world (input_dir (default_generator\<lparr>input_dir := ''nowhere''\<rparr>)) = Missing"
    by (simp add: demo_world_def)
  from file_enumeration [of demo_world "default_generator\<lparr>input_dir := ''nowhere''\<rparr>"] m
  have 5: "get_image_files demo_world (default_generator\<lparr>input_dir := ''nowhere''\<rparr>)
     = Inl FileNotFoundError"
    by blast
  from d 1 2 e 3 4 m 5 show ?thesis by simp
qed

subsection \<open>Paths\<close>

lemma rfind_from_append:
  "rfind_from c (xs @ ys) i found = rfind_from c ys (i + int (length xs)) (rfind_from c xs i found)"
  by (induction xs arbitrary: i found) (simp_all add: algebra_simps)

lemma rfind_from_absent: "c \<notin> set xs \<Longrightarrow> rfind_from c xs i found = found"
  by (induction xs arbitrary: i found) auto

lemma rfind_from_range:
  "rfind_from c xs i found = found \<or>
   (i \<le> rfind_from c xs i found \<and> rfind_from c xs i found < i + int (length xs))"
proof (induction xs arbitrary: i found)
  case Nil
  then show ?case by simp
next
  case (Cons x xs)
  from Cons.IH [of "i + 1" "if x = c then i else found"]
  show ?case by (auto split: if_splits)
qed

lemma rfind_range: "- 1 \<le> rfind c p \<and> rfind c p < int (length p)"
  using rfind_from_range [of c p 0 "- 1"] by (auto simp: rfind_def)

lemma splitext_loop_parts: "splitext_loop p f d = (r, e) \<Longrightarrow> r @ e = p"
proof (induction p f d rule: splitext_loop.induct)
  case (1 p f d)
  then show ?case
    by (subst (asm) (2) splitext_loop.simps) (auto split: if_splits)
qed

lemma splitext_parts: "fst (splitext p) @ snd (splitext p) = p"
proof -
  obtain r e where re: "splitext p = (r, e)" by (cases "splitext p")
  then have "r @ e = p"
    by (auto simp: splitext_def Let_def split: if_splits dest: splitext_loop_parts)
  with re show ?thesis by simp
qed

lemma splitext_root_length: "length (fst (splitext p)) \<le> length p"
  using arg_cong [OF splitext_parts [of p], of length] by simp

lemma splitext_loop_found:
  assumes "f \<le> i" "i < d" "i < length p" "p ! i \<noteq> CHR ''.''"
  shows "splitext_loop p f d = (take d p, drop d p)"
  using assms
proof (induction p f d rule: splitext_loop.induct)
  case (1 p f d)
  have fd: "f < d" using "1.prems" by simp
  have fl: "f < length p" using "1.prems" by simp
  show ?case
  proof (cases "take 1 (drop f p) \<noteq> ''.''")
    case True
    with fd show ?thesis by (subst splitext_loop.simps) simp
  next
    case False
    then have "p ! f = CHR ''.''"
      using fl by (simp add: take_Suc_conv_app_nth [of 0] hd_drop_conv_nth drop_eq_Nil not_le)
    with "1.prems" have "f \<noteq> i" by auto
    with "1.prems" have "f + 1 \<le> i" by simp
    from "1.IH" [OF fd _ this "1.prems"(2,3,4)] False
    have "splitext_loop p (f + 1) d = (take d p, drop d p)" by simp
    with fd False show ?thesis by (subst splitext_loop.simps) simp
  qed
qed

lemma splitext_atlus: "splitext (s @ ''-atlus.png'') = (s @ ''-atlus'', ''.png'')"
proof -
  let ?p = "s @ ''-atlus.png''"
  have sep: "rfind CHR ''/'' ?p = rfind CHR ''/'' s"
    by (simp add: rfind_def rfind_from_append)
  have dot: "rfind CHR ''.'' ?p = int (length s) + 6"
    by (simp add: rfind_def rfind_from_append)
  have sl: "- 1 \<le> rfind CHR ''/'' s" "rfind CHR ''/'' s < int (length s)"
    using rfind_range [of "CHR ''/''" s] by simp_all
  have "splitext_loop ?p (nat (rfind CHR ''/'' s + 1)) (nat (int (length s) + 6))
      = (take (nat (int (length s) + 6)) ?p, drop (nat (int (length s) + 6)) ?p)"
  proof (rule splitext_loop_found [where i = "length s"])
    show "nat (rfind CHR ''/'' s + 1) \<le> length s" using sl by simp
    show "length s < nat (int (length s) + 6)" by simp
    show "length s < length ?p" by simp
    show "?p ! length s \<noteq> CHR ''.''" by (simp add: nth_append)
  qed
  moreover have "nat (int (length s) + 6) = length s + 6" by simp
  ultimately have "splitext_loop ?p (nat (rfind CHR ''/'' s + 1)) (nat (int (length s) + 6))
      = (s @ ''-atlus'', ''.png'')" by simp
  then show ?thesis using sl by (simp add: splitext_def sep dot Let_def)
qed

lemma rfind_last: "c \<notin> set zs \<Longrightarrow> rfind c (ys @ c # zs) = int (length ys)"
  by (simp add: rfind_def rfind_from_append rfind_from_absent)

lemma rfind_absent: "c \<notin> set p \<Longrightarrow> rfind c p = - 1"
  by (simp add: rfind_def rfind_from_absent)

lemma splitext_loop_shape:
  "splitext_loop p f d = (p, []) \<or> splitext_loop p f d = (take d p, drop d p)"
proof (induction p f d rule: splitext_loop.induct)
  case (1 p f d)
  show ?case
  proof (cases "f < d \<and> \<not> take 1 (drop f p) \<noteq> ''.''")
    case True
    with "1.IH" show ?thesis by (subst (1 2) splitext_loop.simps) auto
  next
    case False
    then show ?thesis by (subst (1 2) splitext_loop.simps) auto
  qed
qed

lemma splitext_extension:
  "snd (splitext p) = [] \<or>
   (hd (snd (splitext p)) = CHR ''.'' \<and> CHR ''/'' \<notin> set (snd (splitext p))
      \<and> CHR ''.'' \<notin> set (tl (snd (splitext p))))"
proof (cases "CHR ''.'' \<in> set p")
  case False
  then have "rfind CHR ''.'' p = - 1" by (rule rfind_absent)
  moreover have "- 1 \<le> rfind CHR ''/'' p" using rfind_range [of "CHR ''/''" p] by simp
  ultimately show ?thesis by (simp add: splitext_def Let_def)
next
  case True
  then obtain ys zs where p: "p = ys @ CHR ''.'' # zs" and zs: "CHR ''.'' \<notin> set zs"
    by (auto dest: split_list_last)
  have dot: "rfind CHR ''.'' p = int (length ys)" unfolding p using zs by (rule rfind_last)
  show ?thesis
  proof (cases "rfind CHR ''/'' p < int (length ys)")
    case False
    then show ?thesis by (simp add: splitext_def Let_def dot)
  next
    case sep: True
    have no_slash: "CHR ''/'' \<notin> set zs"
    proof
      assume "CHR ''/'' \<in> set zs"
      then obtain us vs where z: "zs = us @ CHR ''/'' # vs" and vs: "CHR ''/'' \<notin> set vs"
        by (auto dest: split_list_last)
      have pe: "p = (ys @ CHR ''.'' # us) @ CHR ''/'' # vs" by (simp add: p z)
      have "rfind CHR ''/'' p = int (length (ys @ CHR ''.'' # us))"
        unfolding pe using vs by (rule rfind_last)
      with sep show False by simp
    qed
    obtain r e where re: "splitext_loop p (nat (rfind CHR ''/'' p + 1)) (length ys) = (r, e)"
      by (cases "splitext_loop p (nat (rfind CHR ''/'' p + 1)) (length ys)")
    have "drop (length ys) p = CHR ''.'' # zs" by (simp add: p)
    with re have "e = [] \<or> e = CHR ''.'' # zs"
      using splitext_loop_shape [of p "nat (rfind CHR ''/'' p + 1)" "length ys"] by auto
    moreover have "snd (splitext p) = e" using sep re by (simp add: splitext_def Let_def dot)
    ultimately show ?thesis using zs no_slash by auto
  qed
qed

subsection \<open>The mapping file's default path\<close>

lemma atlas_file_root:
  "fst (splitext (atlas_file g)) =
     output_path g @ (if endswith (output_path g) ''/'' then [] else ''/'') @ output_name g @ ''-atlus''"
proof -
  have "atlas_file g =
    (output_path g @ (if endswith (output_path g) ''/'' then [] else ''/'') @ output_name g)
      @ ''-atlus.png''"
    by (simp add: atlas_file_def)
  then show ?thesis by (simp only: splitext_atlus) simp
qed

text \<open>
  Claim C3, as the code has it. When no mapping path is given, the mapping file is written
  at \<open>output_path\<close> itself, the directory given on the command line, with its extension
  (if it has one) replaced by \<open>_mapping.txt\<close>, and not at the path of the atlas,
  \<open>{output_path}/{output_name}-atlus.png\<close>, with \<open>.png\<close> replaced: the two paths differ
  for every generator. A given mapping path is used as it is.
\<close>

theorem default_mapping_path:
  "atlas_file g =
     output_path g @ (if endswith (output_path g) ''/'' then [] else ''/'') @ output_name g
       @ ''-atlus.png'' \<and>
   fst (save_mapping_file g mapping None) = fst (splitext (output_path g)) @ ''_mapping.txt'' \<and>
   (\<exists>ext. output_path g = fst (splitext (output_path g)) @ ext
      \<and> (ext = [] \<or> hd ext = CHR ''.'') \<and> CHR ''/'' \<notin> set ext \<and> CHR ''.'' \<notin> set (tl ext)) \<and>
   fst (save_mapping_file g mapping None) \<noteq> spec_mapping_path g \<and>
   save_mapping_file g mapping (Some p) = (p, mapping)"
proof (intro conjI)
  show "atlas_file g =
     output_path g @ (if endswith (output_path g) ''/'' then [] else ''/'') @ output_name g
       @ ''-atlus.png''"
    by (simp add: atlas_file_def)
  show "fst (save_mapping_file g mapping None) = fst (splitext (output_path g)) @ ''_mapping.txt''"
    by (simp add: save_mapping_file_def)
  show "\<exists>ext. output_path g = fst (splitext (output_path g)) @ ext
      \<and> (ext = [] \<or> hd ext = CHR ''.'') \<and> CHR ''/'' \<notin> set ext \<and> CHR ''.'' \<notin> set (tl ext)"
    using splitext_parts [of "output_path g"] splitext_extension [of "output_path g"]
    by (intro exI [of _ "snd (splitext (output_path g))"]) auto
  have "length (fst (save_mapping_file g mapping None)) \<le> length (output_path g) + 12"
    using splitext_root_length [of "output_path g"] by (simp add: save_mapping_file_def)
  moreover have "length (output_path g) + 18 \<le> length (spec_mapping_path g)"
    by (simp add: spec_mapping_path_def atlas_file_root)
  ultimately show "fst (save_mapping_file g mapping None) \<noteq> spec_mapping_path g"
    by auto
  show "save_mapping_file g mapping (Some p) = (p, mapping)"
    by (simp add: save_mapping_file_def)
qed

theorem default_mapping_path_counterexample:
  "atlas_file default_generator = ''out/game-atlus.png''
   \<and> spec_mapping_path default_generator = ''out/game-atlus_mapping.txt''
   \<and> fst (save_mapping_file default_generator [] None) = ''out_mapping.txt''
   \<and> fst (save_mapping_file default_generator [] None) \<noteq> spec_mapping_path default_generator"
proof -
  have a: "atlas_file default_generator = ''out/game-atlus.png''"
    by (simp add: atlas_file_def default_generator_def endswith_def)
  have s: "spec_mapping_path default_generator = ''out/game-atlus_mapping.txt''"
    using splitext_atlus [of "''out/game''"] by (simp add: spec_mapping_path_def a)
  have "splitext ''out'' = (''out'', [])"
    by (simp add: splitext_def rfind_def)
  then have m: "fst (save_mapping_file default_generator [] None) = ''out_mapping.txt''"
    by (simp add: save_mapping_file_def default_generator_def)
  from a s m show ?thesis by simp
qed

subsection \<open>The loop of create_atlas\<close>

lemma process_image_fields:
  "snd (process_image w cols cw ch i p st) =
     (case place_image w cols cw ch (i, p) of Inl e \<Rightarrow> Some e | Inr r \<Rightarrow> None)"
  "atlas (fst (process_image w cols cw ch i p st)) =
     (case place_image w cols cw ch (i, p) of
        Inl e \<Rightarrow> atlas st | Inr r \<Rightarrow> atlas st @ [fst r])"
  "atlas_mapping (fst (process_image w cols cw ch i p st)) =
     (case place_image w cols cw ch (i, p) of
        Inl e \<Rightarrow> atlas_mapping st
      | Inr r \<Rightarrow> AList.update (basename p) (snd r) (atlas_mapping st))"
  by (simp_all add: place_image_def process_image_def initial_state_def Let_def
      split: sum.splits option.splits)

lemma update_fresh: "k \<notin> fst ` set m \<Longrightarrow> AList.update k v m = m @ [(k, v)]"
  by (induction m) auto

lemma snd_enumerate_from: "map snd (enumerate_from i xs) = xs"
  by (induction xs arbitrary: i) simp_all

lemma length_enumerate_from [simp]: "length (enumerate_from i xs) = length xs"
  by (induction xs arbitrary: i) simp_all

lemma process_image_step:
  assumes "process_image w cols cw ch i p st = (st', exc)"
  shows "exc = (case place_image w cols cw ch (i, p) of Inl e \<Rightarrow> Some e | Inr r \<Rightarrow> None)"
    and "atlas st' =
     (case place_image w cols cw ch (i, p) of
        Inl e \<Rightarrow> atlas st | Inr r \<Rightarrow> atlas st @ [fst r])"
    and "atlas_mapping st' =
     (case place_image w cols cw ch (i, p) of
        Inl e \<Rightarrow> atlas_mapping st
      | Inr r \<Rightarrow> AList.update (basename p) (snd r) (atlas_mapping st))"
  using process_image_fields [of w cols cw ch i p st] by (simp_all add: assms)

lemma process_images_atlas:
  "atlas (process_images w cols cw ch i files st) =
     atlas st @ map (\<lambda>ip. fst (projr (place_image w cols cw ch ip)))
                  (filter (placed w cols cw ch) (enumerate_from i files))"
proof (induction files arbitrary: i st)
  case Nil
  then show ?case by simp
next
  case (Cons p files)
  obtain st' exc where pi: "process_image w cols cw ch i p st = (st', exc)"
    by (cases "process_image w cols cw ch i p st")
  note step = process_image_step [OF pi]
  show ?case
  proof (cases "place_image w cols cw ch (i, p)")
    case (Inl e)
    with step show ?thesis by (simp add: pi Cons.IH placed_def)
  next
    case (Inr r)
    with step show ?thesis by (simp add: pi Cons.IH placed_def)
  qed
qed

lemma process_images_mapping:
  assumes "distinct (map basename files)"
    and "\<forall>p \<in> set files. basename p \<notin> fst ` set (atlas_mapping st)"
  shows "atlas_mapping (process_images w cols cw ch i files st) =
     atlas_mapping st @ map (entry w cols cw ch)
                          (filter (placed w cols cw ch) (enumerate_from i files))"
  using assms
proof (induction files arbitrary: i st)
  case Nil
  then show ?case by simp
next
  case (Cons p files)
  have d: "distinct (map basename files)" using Cons.prems(1) by simp
  obtain st' exc where pi: "process_image w cols cw ch i p st = (st', exc)"
    by (cases "process_image w cols cw ch i p st")
  note step = process_image_step [OF pi]
  show ?case
  proof (cases "place_image w cols cw ch (i, p)")
    case (Inl e)
    have m: "atlas_mapping st' = atlas_mapping st" using step(3) Inl by simp
    have "\<forall>q \<in> set files. basename q \<notin> fst ` set (atlas_mapping
        (st'\<lparr>printed := printed st' @ [ErrorProcessing p e]\<rparr>))"
      using Cons.prems(2) by (simp add: m)
    from Cons.IH [OF d this] Inl step(1) show ?thesis
      by (simp add: pi placed_def m)
  next
    case (Inr r)
    have fresh: "basename p \<notin> fst ` set (atlas_mapping st)" using Cons.prems(2) by simp
    then have upd: "AList.update (basename p) (snd r) (atlas_mapping st)
        = atlas_mapping st @ [(basename p, snd r)]" by (rule update_fresh)
    have m: "atlas_mapping st' = atlas_mapping st @ [(basename p, snd r)]"
      using step(3) Inr upd by simp
    have "\<forall>q \<in> set files. basename q \<notin> fst ` set (atlas_mapping st')"
      using Cons.prems by (auto simp: m image_iff)
    from Cons.IH [OF d this] Inr step(1) show ?thesis
      by (simp add: pi placed_def m entry_def)
  qed
qed


lemma place_image_record:
  assumes "place_image w cols cw ch (i, p) = Inr (paste, info)"
  shows "cols \<noteq> 0"
    and "info_cell_x info = (i mod cols) * cw" and "info_cell_y info = (i div cols) * ch"
    and "info_cell_width info = cw" and "info_cell_height info = ch"
    and "info_x info = info_cell_x info + (cw - info_width info) div 2"
    and "info_y info = info_cell_y info + (ch - info_height info) div 2"
    and "\<exists>opened img resized.
           image_open w p = Inr opened
         \<and> (if mode opened \<noteq> ''RGBA'' then image_convert w opened ''RGBA'' else Inr opened) = Inr img
         \<and> resize_image_to_fit w img cw ch = Inr resized
         \<and> image_paste w (resized, info_x info, info_y info) = None
         \<and> paste = (resized, info_x info, info_y info)
         \<and> info_width info = width resized \<and> info_height info = height resized
         \<and> info_original_size info = (width img, height img)"
  using assms
  by (auto simp: place_image_def process_image_def initial_state_def Let_def py_mod_def
      py_floordiv_def split: sum.splits option.splits if_splits)


lemma basename_join:
  assumes "CHR ''/'' \<notin> set n"
  shows "basename (join dir n) = n"
proof (cases "dir = []")
  case True
  then show ?thesis using assms by (simp add: join_entry basename_def rfind_absent)
next
  case False
  define pre where "pre = (if endswith dir ''/'' then dir else dir @ ''/'')"
  have j: "join dir n = pre @ n" using assms False by (simp add: join_entry pre_def)
  have "\<exists>us. pre = us @ ''/''"
  proof (cases "endswith dir ''/''")
    case True
    then have "drop (length dir - 1) dir = ''/''" by (simp add: endswith_def)
    then have "dir = take (length dir - 1) dir @ ''/''"
      using append_take_drop_id [of "length dir - 1" dir] by simp
    with True show ?thesis unfolding pre_def by (simp only: if_True) blast
  next
    case False
    then show ?thesis by (simp add: pre_def)
  qed
  then obtain us where us: "pre = us @ ''/''" ..
  have r: "rfind CHR ''/'' (us @ CHR ''/'' # n) = int (length us)" using assms by (rule rfind_last)
  have "nat (int (length us) + 1) = Suc (length us)" by simp
  then show ?thesis by (simp add: j us basename_def r del: of_nat_Suc)
qed

lemma create_atlas_run:
  assumes "get_image_files w g = Inr files" "files \<noteq> []"
    and "calculate_grid_size g (int (length files)) = Inr (cols, rows)"
    and "image_new w (atlas_width g, atlas_height g) = None"
    and "image_save w (atlas_file g) = None"
  shows "create_atlas w g =
    Inr (process_images w cols (sprite_width g) (sprite_height g) 0 files initial_state)"
  using assms by (simp add: create_atlas_def initial_state_def)

lemma enumerate_from_nth:
  "k < length xs \<Longrightarrow> enumerate_from i xs ! k = (i + int k, xs ! k)"
proof (induction xs arbitrary: i k)
  case Nil
  then show ?case by simp
next
  case (Cons x xs)
  then show ?case by (cases k) simp_all
qed

lemma enumerate_from_member:
  "k < length xs \<Longrightarrow> (i + int k, xs ! k) \<in> set (enumerate_from i xs)"
  using enumerate_from_nth [of k xs i] nth_mem [of k "enumerate_from i xs"] by simp

lemma files_distinct_basenames:
  assumes "fs w (input_dir g) = Directory names" "distinct names"
    and "\<forall>n \<in> set names. CHR ''/'' \<notin> set n"
    and "get_image_files w g = Inr files"
  shows "distinct (map basename files)"
proof -
  let ?entries = "filter has_supported_extension names"
  have files: "files = map (join (input_dir g)) (sort ?entries)"
    using get_image_files_directory [OF assms(1)] assms(3,4)
    by (simp add: sort_join_entries)
  have "\<forall>n \<in> set (sort ?entries). basename (join (input_dir g) n) = n"
    using assms(3) by (simp add: basename_join)
  then have "map (\<lambda>n. basename (join (input_dir g) n)) (sort ?entries) = sort ?entries"
    by (intro map_idI) simp
  then have "map basename files = sort ?entries"
    unfolding files by (simp add: comp_def)
  then show ?thesis using assms(2) by simp
qed

subsection \<open>The Image Fitter\<close>

lemma scale_product_upper:
  assumes "0 < d" "d < 2 ^ 53" "0 < c" "c < 2 ^ 52"
  shows "of_int d * fl (of_int c / of_int d) \<le> (of_int c :: rat) + 1 / 2"
proof -
  have dpos: "(0::rat) < of_int d" using assms(1) by simp
  have d53: "(of_int d :: rat) \<le> 2 ^ 53"
  proof -
    have "(of_int d :: rat) \<le> of_int (2 ^ 53)" using assms(2) by simp
    then show ?thesis by simp
  qed
  have c1: "(1::rat) \<le> of_int c" using assms(3) by simp
  have c52: "(of_int c :: rat) \<le> 2 ^ 52"
  proof -
    have "(of_int c :: rat) \<le> of_int (2 ^ 52)" using assms(4) by simp
    then show ?thesis by simp
  qed
  have "pow2 (- 1022) \<le> 1 / 2 ^ 53"
    using pow2_mono [of "- 1022" "- 53"] by (simp add: pow2_def)
  also have "\<dots> \<le> 1 / of_int d" using dpos d53 by (simp add: frac_le)
  also have "\<dots> \<le> of_int c / of_int d" using dpos c1 by (simp add: divide_right_mono)
  finally have "fl (of_int c / of_int d) \<le> of_int c / of_int d * (1 + 1 / 2 ^ 53)"
    by (rule fl_rel_upper)
  then have "of_int d * fl (of_int c / of_int d) \<le> of_int d * (of_int c / of_int d * (1 + 1 / 2 ^ 53))"
    using dpos by (simp only: mult_le_cancel_left_pos)
  also have "\<dots> = of_int c * (1 + 1 / 2 ^ 53)" using dpos by simp
  also have "\<dots> = of_int c + of_int c / 2 ^ 53" by (simp add: algebra_simps)
  also have "\<dots> \<le> of_int c + 2 ^ 52 / 2 ^ 53" using c52 by (simp add: divide_right_mono)
  also have "\<dots> = of_int c + 1 / 2" by simp
  finally show ?thesis .
qed

lemma scaled_dim_value:
  assumes "0 < d" "d < 2 ^ 53" "0 \<le> s" "s \<le> 2 ^ 53"
  shows "scaled_dim d s = Inr \<lfloor>fl (of_int d * s)\<rfloor>" and "0 \<le> \<lfloor>fl (of_int d * s)\<rfloor>"
proof -
  have f: "int_to_float d = Inr (of_int d)" using assms(1,2) by (intro int_to_float_exact) simp
  have "(of_int d :: rat) \<le> of_int (2 ^ 53)" using assms(2) by simp
  then have d: "(0::rat) \<le> of_int d" "(of_int d :: rat) \<le> 2 ^ 53" using assms(1) by simp_all
  note m = float_mul_finite [OF d assms(3,4)]
  show "scaled_dim d s = Inr \<lfloor>fl (of_int d * s)\<rfloor>"
    using m(2) by (simp add: scaled_dim_def f m(1) int_of_float_def)
  show "0 \<le> \<lfloor>fl (of_int d * s)\<rfloor>" using m(2) by simp
qed

lemma scaled_dim_fits:
  assumes "0 < d" "d < 2 ^ 53" "0 < c" "c < 2 ^ 52" "0 \<le> s" "s \<le> fl (of_int c / of_int d)"
  shows "\<lfloor>fl (of_int d * s)\<rfloor> \<le> c"
proof -
  have "of_int d * s \<le> of_int d * fl (of_int c / of_int d)"
    using assms(1,6) by (simp add: mult_left_mono)
  also have "\<dots> \<le> of_int c + 1 / 2" using assms(1-4) by (rule scale_product_upper)
  also have "\<dots> = of_int (2 * c + 1) / 2" by simp
  finally have "fl (of_int d * s) \<le> fl (of_int (2 * c + 1) / 2)" by (rule fl_mono)
  also have "\<dots> = of_int (2 * c + 1) / 2" using assms(3,4) by (intro fl_half) simp
  also have "\<dots> = of_int c + 1 / 2" by simp
  finally have "\<lfloor>fl (of_int d * s)\<rfloor> \<le> \<lfloor>(of_int c :: rat) + 1 / 2\<rfloor>" by (rule floor_mono)
  also have "\<dots> = c" by (simp add: floor_unique)
  finally show ?thesis .
qed

lemma new_size_value:
  assumes "0 < width img" "width img < 2 ^ 53" "0 < height img" "height img < 2 ^ 53"
    and "0 < cw" "cw < 2 ^ 52" "0 < ch" "ch < 2 ^ 52"
  shows "new_size img cw ch = Inr (truncated_new_size img cw ch)"
    and "0 \<le> fst (truncated_new_size img cw ch)" and "fst (truncated_new_size img cw ch) \<le> cw"
    and "0 \<le> snd (truncated_new_size img cw ch)" and "snd (truncated_new_size img cw ch) \<le> ch"
proof -
  have cw53: "cw < 2 ^ 53" and ch53: "ch < 2 ^ 53" using assms(6,8) by simp_all
  note x = int_truediv_pos [OF assms(5) cw53 assms(1)]
  note y = int_truediv_pos [OF assms(7) ch53 assms(3)]
  define s where "s = spec_scale img cw ch"
  have s: "s = min (fl (of_int cw / of_int (width img))) (fl (of_int ch / of_int (height img)))"
    by (simp add: s_def spec_scale_def)
  have s0: "0 \<le> s" using x(2) y(2) by (simp add: s)
  have sx: "s \<le> fl (of_int cw / of_int (width img))"
    and sy: "s \<le> fl (of_int ch / of_int (height img))" by (simp_all add: s)
  have "(of_int cw :: rat) \<le> of_int (2 ^ 53)" using cw53 by simp
  then have "(of_int cw :: rat) \<le> 2 ^ 53" by simp
  with sx x(3) have s53: "s \<le> 2 ^ 53" by linarith
  note dw = scaled_dim_value [OF assms(1,2) s0 s53]
  note dh = scaled_dim_value [OF assms(3,4) s0 s53]
  show "new_size img cw ch = Inr (truncated_new_size img cw ch)"
    by (simp add: new_size_def x(1) y(1) Let_def s [symmetric] dw(1) dh(1) truncated_new_size_def
        s_def [symmetric])
  show "0 \<le> fst (truncated_new_size img cw ch)"
    using dw(2) by (simp add: truncated_new_size_def s_def)
  show "0 \<le> snd (truncated_new_size img cw ch)"
    using dh(2) by (simp add: truncated_new_size_def s_def)
  show "fst (truncated_new_size img cw ch) \<le> cw"
    using scaled_dim_fits [OF assms(1,2,5,6) s0 sx] by (simp add: truncated_new_size_def s_def)
  show "snd (truncated_new_size img cw ch) \<le> ch"
    using scaled_dim_fits [OF assms(3,4,7,8) s0 sy] by (simp add: truncated_new_size_def s_def)
qed

lemma fl_numeral [simp]: "fl (numeral k / 2) = numeral k / 2" if "numeral k < (2::int) ^ 53"
  using fl_half [of "numeral k"] that by simp

lemma fl_numeral_int [simp]: "fl (numeral k) = numeral k" if "numeral k < (2::int) ^ 53"
  using fl_int [of "numeral k"] that by simp

lemma fl_1 [simp]: "fl 1 = 1"
  using fl_int [of 1] by simp

lemma fl_quarters [simp]: "fl (numeral k / 4) = numeral k / 4" if "numeral k < (2::int) ^ 53"
  using fl_exact [of "numeral k" "- 2"] that by (simp add: pow2_def)

lemma fl_one_quarter: "fl (1 / 4) = 1 / 4"
  using fl_exact [of 1 "- 2"] by (simp add: pow2_def)

lemma min_fl_left: "fl a = a \<Longrightarrow> a \<le> b \<Longrightarrow> min a (fl b) = a"
  using fl_mono [of a b] by simp

lemma min_fl_right: "fl a = a \<Longrightarrow> a \<le> b \<Longrightarrow> min (fl b) a = a"
  using fl_mono [of a b] by simp


lemma truncated_tall: "truncated_new_size \<lparr>width = 62, height = 64, mode = m\<rparr> 32 32 = (31, 32)"
proof -
  have "min (fl (16 / 31)) (1 / 2) = 1 / 2" by (rule min_fl_right) (simp_all add: fl_one_half)
  then show ?thesis by (simp add: truncated_new_size_def spec_scale_def fl_one_half)
qed

lemma truncated_small: "truncated_new_size \<lparr>width = 16, height = 16, mode = m\<rparr> 32 32 = (32, 32)"
  by (simp add: truncated_new_size_def spec_scale_def)


lemma scale_strip: "spec_scale \<lparr>width = 128, height = 7, mode = m\<rparr> 32 32 = 1 / 4"
proof -
  have "min (1 / 4) (fl (32 / 7)) = 1 / 4" by (rule min_fl_left) (simp_all add: fl_one_quarter)
  then show ?thesis by (simp add: spec_scale_def fl_one_quarter)
qed

lemma truncated_strip: "truncated_new_size \<lparr>width = 128, height = 7, mode = m\<rparr> 32 32 = (32, 1)"
  by (simp add: truncated_new_size_def scale_strip)

lemma rounded_strip: "spec_new_size \<lparr>width = 128, height = 7, mode = m\<rparr> 32 32 = (32, 2)"
  by (simp add: spec_new_size_def scale_strip round_def)


lemma new_size_tall: "new_size \<lparr>width = 62, height = 64, mode = m\<rparr> 32 32 = Inr (31, 32)"
  using new_size_value(1) [of "\<lparr>width = 62, height = 64, mode = m\<rparr>" 32 32]
  by (simp add: truncated_tall)

lemma new_size_small: "new_size \<lparr>width = 16, height = 16, mode = m\<rparr> 32 32 = Inr (32, 32)"
  using new_size_value(1) [of "\<lparr>width = 16, height = 16, mode = m\<rparr>" 32 32]
  by (simp add: truncated_small)


lemma new_size_strip: "new_size \<lparr>width = 128, height = 7, mode = m\<rparr> 32 32 = Inr (32, 1)"
  using new_size_value(1) [of "\<lparr>width = 128, height = 7, mode = m\<rparr>" 32 32]
  by (simp add: truncated_strip)




lemma truncated_new_size_cong:
  "width a = width b \<Longrightarrow> height a = height b \<Longrightarrow>
     truncated_new_size a cw ch = truncated_new_size b cw ch"
  by (simp add: truncated_new_size_def spec_scale_def)

lemma new_size_cong:
  "width a = width b \<Longrightarrow> height a = height b \<Longrightarrow> new_size a cw ch = new_size b cw ch"
  unfolding new_size_def by (erule ssubst, erule ssubst) (rule refl)

lemma resize_image_to_fit_size:
  assumes "resize_image_to_fit w img cw ch = Inr r" "resizes_to_size w"
  shows "new_size img cw ch = Inr (width r, height r)"
  using assms by (auto simp: resize_image_to_fit_def resizes_to_size_def split: sum.splits)

lemma place_image_size:
  assumes "place_image w cols cw ch (i, p) = Inr (paste, info)" "resizes_to_size w"
  shows "new_size \<lparr>width = fst (info_original_size info), height = snd (info_original_size info),
                    mode = ''RGBA''\<rparr> cw ch = Inr (info_width info, info_height info)"
    and "width (fst paste) = info_width info" and "height (fst paste) = info_height info"
    and "fst (snd paste) = info_x info" and "snd (snd paste) = info_y info"
proof -
  from place_image_record(8) [OF assms(1)] obtain opened img resized where
    r: "resize_image_to_fit w img cw ch = Inr resized"
    and p: "paste = (resized, info_x info, info_y info)"
    and s: "info_width info = width resized" "info_height info = height resized"
    and o: "info_original_size info = (width img, height img)"
    by blast
  have "new_size img cw ch = Inr (width resized, height resized)"
    using r assms(2) by (rule resize_image_to_fit_size)
  moreover have "new_size \<lparr>width = fst (info_original_size info), height = snd (info_original_size info),
                    mode = ''RGBA''\<rparr> cw ch = new_size img cw ch"
    by (rule new_size_cong) (simp_all add: o)
  ultimately show "new_size \<lparr>width = fst (info_original_size info), height = snd (info_original_size info),
                    mode = ''RGBA''\<rparr> cw ch = Inr (info_width info, info_height info)"
    by (simp add: s)
  show "width (fst paste) = info_width info" "height (fst paste) = info_height info"
    "fst (snd paste) = info_x info" "snd (snd paste) = info_y info"
    by (simp_all add: p s)
qed

lemma resizes_to_size_demo: "resizes_to_size demo_world"
  by (auto simp: resizes_to_size_def demo_world_def split: if_splits)

lemma basename_demo:
  "basename ''sprites/A.JPG'' = ''A.JPG''" "basename ''sprites/b.png'' = ''b.png''"
  "basename ''sprites/bad.png'' = ''bad.png''" "basename ''sprites/c.webp'' = ''c.webp''"
  by (simp_all add: basename_def rfind_def)


lemma place_demo_1:
  "place_image demo_world 8 32 32 (1, ''sprites/b.png'') =
     Inr ((\<lparr>width = 31, height = 32, mode = ''RGBA''\<rparr>, 32, 0),
          \<lparr>info_x = 32, info_y = 0, info_width = 31, info_height = 32, info_cell_x = 32,
           info_cell_y = 0, info_cell_width = 32, info_cell_height = 32,
           info_original_size = (62, 64)\<rparr>)"
  by (simp add: place_image_def process_image_def initial_state_def demo_world_def py_mod_def
      py_floordiv_def resize_image_to_fit_def new_size_tall)


lemma place_demo_3:
  "place_image demo_world 8 32 32 (3, ''sprites/c.webp'') =
     Inr ((\<lparr>width = 32, height = 32, mode = ''RGBA''\<rparr>, 96, 0),
          \<lparr>info_x = 96, info_y = 0, info_width = 32, info_height = 32, info_cell_x = 96,
           info_cell_y = 0, info_cell_width = 32, info_cell_height = 32,
           info_original_size = (16, 16)\<rparr>)"
  by (simp add: place_image_def process_image_def initial_state_def demo_world_def py_mod_def
      py_floordiv_def resize_image_to_fit_def new_size_small)

lemma grid_default: "calculate_grid_size default_generator 4 = Inr (8, 1)"
  using calculate_grid_size_formula [of default_generator 4]
  by (simp add: default_generator_def spec_columns_default spec_rows_default)

lemma demo_files:
  "get_image_files demo_world default_generator
     = Inr [''sprites/A.JPG'', ''sprites/b.png'', ''sprites/bad.png'', ''sprites/c.webp'']"
proof -
  have d: "fs demo_world (input_dir default_generator)
     = Directory [''b.png'', ''notes.txt'', ''A.JPG'', ''bad.png'', ''c.webp'']"
    by (simp add: demo_world_def default_generator_def)
  have "sort (map (join (input_dir default_generator))
          (filter has_supported_extension [''b.png'', ''notes.txt'', ''A.JPG'', ''bad.png'', ''c.webp'']))
     = [''sprites/A.JPG'', ''sprites/b.png'', ''sprites/bad.png'', ''sprites/c.webp'']"
    by (simp only: demo_entries)
      (simp add: default_generator_def join_def startswith_def endswith_def)
  with get_image_files_directory [OF d] show ?thesis by simp
qed


lemma place_image_fits:
  assumes "place_image w cols cw ch (i, p) = Inr (paste, info)" "resizes_to_size w"
    and "info_original_size info = (ow, oh)"
    and "0 < ow" "ow < 2 ^ 53" "0 < oh" "oh < 2 ^ 53"
    and "0 < cw" "cw < 2 ^ 52" "0 < ch" "ch < 2 ^ 52"
  shows "(info_width info, info_height info)
           = truncated_new_size \<lparr>width = ow, height = oh, mode = ''RGBA''\<rparr> cw ch"
    and "0 \<le> info_width info" and "info_width info \<le> cw"
    and "0 \<le> info_height info" and "info_height info \<le> ch"
proof -
  let ?img = "\<lparr>width = ow, height = oh, mode = ''RGBA''\<rparr>"
  have "new_size ?img cw ch = Inr (info_width info, info_height info)"
    using place_image_size(1) [OF assms(1,2)] by (simp add: assms(3))
  moreover note v = new_size_value [of ?img cw ch]
  ultimately show eq: "(info_width info, info_height info) = truncated_new_size ?img cw ch"
    using assms(4-11) v(1) by simp
  have "0 \<le> fst (truncated_new_size ?img cw ch)" "fst (truncated_new_size ?img cw ch) \<le> cw"
    "0 \<le> snd (truncated_new_size ?img cw ch)" "snd (truncated_new_size ?img cw ch) \<le> ch"
    using assms(4-11) v(2-5) by simp_all
  then show "0 \<le> info_width info" "info_width info \<le> cw"
    "0 \<le> info_height info" "info_height info \<le> ch"
    by (simp_all add: eq [symmetric])
qed

lemma trunc_div_nonneg: "0 \<le> a \<Longrightarrow> trunc_div a 2 = a div 2"
  by (cases "a = 0") (simp_all add: trunc_div_def)

lemma margins:
  fixes a :: int
  assumes "0 \<le> a"
  shows "0 \<le> a div 2" and "a div 2 \<le> a"
    and "even a \<Longrightarrow> a - a div 2 = a div 2" and "odd a \<Longrightarrow> a - a div 2 = a div 2 + 1"
  using assms by presburger+

subsection \<open>Scaling and centring\<close>

text \<open>
  Claim C2. For every decoded image the scaled size, recorded and used for pasting, is
  \<open>(round(imgWidth*scale), round(imgHeight*scale))\<close> with \<open>scale = min(cellWidth/imgWidth,
  cellHeight/imgHeight)\<close>. The code converts with \<^verbatim>\<open>int()\<close>: the size that
  \<^verbatim>\<open>resize_image_to_fit\<close> computes, that the resized image has and that the mapping
  records is the scaled size with its fraction dropped, for image sides below \<open>2^53\<close> and
  cell sides below \<open>2^52\<close>.
\<close>

theorem new_size_truncates:
  assumes "0 < width img" "width img < 2 ^ 53" "0 < height img" "height img < 2 ^ 53"
    and "0 < cw" "cw < 2 ^ 52" "0 < ch" "ch < 2 ^ 52"
  shows "new_size img cw ch = Inr (truncated_new_size img cw ch) \<and>
    (\<forall>r. resizes_to_size w \<and> resize_image_to_fit w img cw ch = Inr r \<longrightarrow>
       (width r, height r) = truncated_new_size img cw ch) \<and>
    (\<forall>i p paste info.
       resizes_to_size w \<and> place_image w cols cw ch (i, p) = Inr (paste, info)
         \<and> info_original_size info = (width img, height img) \<longrightarrow>
       (info_width info, info_height info) = truncated_new_size img cw ch
         \<and> (width (fst paste), height (fst paste)) = truncated_new_size img cw ch)"
proof (intro conjI allI impI)
  show v: "new_size img cw ch = Inr (truncated_new_size img cw ch)"
    using assms by (rule new_size_value(1))
  show "(width r, height r) = truncated_new_size img cw ch"
    if "resizes_to_size w \<and> resize_image_to_fit w img cw ch = Inr r" for r
    using resize_image_to_fit_size [of w img cw ch r] that v by simp
  fix i p paste info
  assume h: "resizes_to_size w \<and> place_image w cols cw ch (i, p) = Inr (paste, info)
         \<and> info_original_size info = (width img, height img)"
  have c: "truncated_new_size \<lparr>width = width img, height = height img, mode = ''RGBA''\<rparr> cw ch
      = truncated_new_size img cw ch"
    by (rule truncated_new_size_cong) simp_all
  from h have p: "place_image w cols cw ch (i, p) = Inr (paste, info)" and r: "resizes_to_size w"
    and o: "info_original_size info = (width img, height img)" by simp_all
  show s: "(info_width info, info_height info) = truncated_new_size img cw ch"
    using place_image_fits(1) [OF p r o assms] c by simp
  show "(width (fst paste), height (fst paste)) = truncated_new_size img cw ch"
    using place_image_size(2,3) [OF p r] s by simp
qed

theorem new_size_truncates_witness:
  "new_size \<lparr>width = 62, height = 64, mode = ''RGBA''\<rparr> 32 32 = Inr (31, 32)
   \<and> resizes_to_size demo_world
   \<and> resize_image_to_fit demo_world \<lparr>width = 62, height = 64, mode = ''RGBA''\<rparr> 32 32
       = Inr \<lparr>width = 31, height = 32, mode = ''RGBA''\<rparr>
   \<and> info_original_size (snd (projr (place_image demo_world 8 32 32 (1, ''sprites/b.png'')))) = (62, 64)
   \<and> info_width (snd (projr (place_image demo_world 8 32 32 (1, ''sprites/b.png'')))) = 31
   \<and> info_height (snd (projr (place_image demo_world 8 32 32 (1, ''sprites/b.png'')))) = 32"
proof -
  let ?img = "\<lparr>width = 62, height = 64, mode = ''RGBA''\<rparr>"
  have r: "resize_image_to_fit demo_world ?img 32 32 = Inr \<lparr>width = 31, height = 32, mode = ''RGBA''\<rparr>"
    by (simp add: resize_image_to_fit_def new_size_tall demo_world_def)
  have "new_size ?img 32 32 = Inr (truncated_new_size ?img 32 32)"
    using new_size_truncates [of ?img 32 32 demo_world 8] by simp
  then show ?thesis
    using r resizes_to_size_demo by (simp add: truncated_tall place_demo_1)
qed

theorem new_size_not_rounded:
  "new_size \<lparr>width = 128, height = 7, mode = ''RGBA''\<rparr> 32 32 = Inr (32, 1)
   \<and> spec_new_size \<lparr>width = 128, height = 7, mode = ''RGBA''\<rparr> 32 32 = (32, 2)"
  by (simp add: new_size_strip rounded_strip)




text \<open>
  Claim C5. For every placed image \<open>pasteX = cellOriginX + (cellWidth - newWidth)/2\<close> with
  truncating integer division, and the same for Y, so that the offset from the cell origin
  is not negative; the scaled image fits the cell; the placement is exactly centred when
  \<open>cellWidth - newWidth\<close> is even and one pixel nearer to the origin when it is odd. The
  image sides are below \<open>2^53\<close> and the cell sides below \<open>2^52\<close>.
\<close>

theorem paste_centred:
  assumes "place_image w cols cw ch (i, p) = Inr (paste, info)" "resizes_to_size w"
    and "info_original_size info = (ow, oh)"
    and "0 < ow" "ow < 2 ^ 53" "0 < oh" "oh < 2 ^ 53"
    and "0 < cw" "cw < 2 ^ 52" "0 < ch" "ch < 2 ^ 52"
  shows "paste = (fst paste, info_x info, info_y info)
    \<and> info_x info = info_cell_x info + (cw - info_width info) div 2
    \<and> info_y info = info_cell_y info + (ch - info_height info) div 2
    \<and> info_x info = info_cell_x info + trunc_div (cw - info_width info) 2
    \<and> info_y info = info_cell_y info + trunc_div (ch - info_height info) 2
    \<and> 0 \<le> info_x info - info_cell_x info \<and> 0 \<le> info_y info - info_cell_y info
    \<and> info_width info \<le> cw \<and> info_height info \<le> ch
    \<and> (even (cw - info_width info) \<longrightarrow>
         info_cell_x info + cw - (info_x info + info_width info) = info_x info - info_cell_x info)
    \<and> (odd (cw - info_width info) \<longrightarrow>
         info_cell_x info + cw - (info_x info + info_width info) = info_x info - info_cell_x info + 1)
    \<and> (even (ch - info_height info) \<longrightarrow>
         info_cell_y info + ch - (info_y info + info_height info) = info_y info - info_cell_y info)
    \<and> (odd (ch - info_height info) \<longrightarrow>
         info_cell_y info + ch - (info_y info + info_height info) = info_y info - info_cell_y info + 1)"
proof -
  note f = place_image_fits [OF assms]
  note c = place_image_record [OF assms(1)]
  note s = place_image_size [OF assms(1,2)]
  have a: "0 \<le> cw - info_width info" "0 \<le> ch - info_height info" using f(3,5) by simp_all
  note mx = margins [OF a(1)]
  note my = margins [OF a(2)]
  have 1: "paste = (fst paste, info_x info, info_y info)" using s(4,5) by (cases paste) auto
  have 2: "info_x info = info_cell_x info + trunc_div (cw - info_width info) 2"
    "info_y info = info_cell_y info + trunc_div (ch - info_height info) 2"
    using c(6,7) by (simp_all add: trunc_div_nonneg [OF a(1)] trunc_div_nonneg [OF a(2)])
  have 3: "0 \<le> info_x info - info_cell_x info" "0 \<le> info_y info - info_cell_y info"
    using c(6,7) mx(1) my(1) by simp_all
  have 4: "info_cell_x info + cw - (info_x info + info_width info) = info_x info - info_cell_x info"
    if "even (cw - info_width info)" using mx(3) [OF that] c(6) by simp
  have 5: "info_cell_x info + cw - (info_x info + info_width info) = info_x info - info_cell_x info + 1"
    if "odd (cw - info_width info)" using mx(4) [OF that] c(6) by simp
  have 6: "info_cell_y info + ch - (info_y info + info_height info) = info_y info - info_cell_y info"
    if "even (ch - info_height info)" using my(3) [OF that] c(7) by simp
  have 7: "info_cell_y info + ch - (info_y info + info_height info) = info_y info - info_cell_y info + 1"
    if "odd (ch - info_height info)" using my(4) [OF that] c(7) by simp
  from 1 c(6,7) 2 3 f(3,5) 4 5 6 7 show ?thesis by blast
qed

theorem paste_centred_witness:
  "place_image demo_world 8 32 32 (1, ''sprites/b.png'') =
     Inr ((\<lparr>width = 31, height = 32, mode = ''RGBA''\<rparr>, 32, 0),
          \<lparr>info_x = 32, info_y = 0, info_width = 31, info_height = 32, info_cell_x = 32,
           info_cell_y = 0, info_cell_width = 32, info_cell_height = 32,
           info_original_size = (62, 64)\<rparr>)
   \<and> resizes_to_size demo_world
   \<and> odd (32 - 31 :: int) \<and> (32::int) + 32 - (32 + 31) = 32 - 32 + 1
   \<and> even (32 - 32 :: int) \<and> (0::int) + 32 - (0 + 32) = 0 - 0
   \<and> trunc_div (32 - 31) 2 = 0"
proof -
  note t = paste_centred [OF place_demo_1 resizes_to_size_demo, of 62 64]
  have "(32::int) = 32 + trunc_div (32 - 31) 2" using t by simp
  then show ?thesis using resizes_to_size_demo by (simp add: place_demo_1)
qed

subsection \<open>The run of create_atlas\<close>


lemma create_atlas_result:
  assumes "create_atlas w g = Inr st" "get_image_files w g = Inr files"
    and "calculate_grid_size g (int (length files)) = Inr (cols, rows)"
  shows "st = process_images w cols (sprite_width g) (sprite_height g) 0 files initial_state"
    and "files \<noteq> []"
  using assms
  by (auto simp: create_atlas_def initial_state_def Let_def split: option.splits if_splits)

lemma process_image_printed:
  "printed (fst (process_image w cols cw ch i p st)) =
     printed st @ (if cols = 0 then [] else [Processing (basename p)])"
  by (simp add: process_image_def py_mod_def py_floordiv_def Let_def
      split: sum.splits option.splits)


lemma process_images_place:
  assumes "place_image w cols cw ch (i, p) = Inr (paste, info)"
  shows "process_images w cols cw ch i (p # rest) st =
     process_images w cols cw ch (i + 1) rest
       (st\<lparr>printed := printed st @ [Processing (basename p)],
           atlas := atlas st @ [paste],
           atlas_mapping := AList.update (basename p) info (atlas_mapping st)\<rparr>)"
proof -
  obtain st' exc where pi: "process_image w cols cw ch i p st = (st', exc)"
    by (cases "process_image w cols cw ch i p st")
  note step = process_image_step [OF pi]
  have exc: "exc = None" using step(1) assms by simp
  have a: "atlas st' = atlas st @ [paste]"
    and m: "atlas_mapping st' = AList.update (basename p) info (atlas_mapping st)"
    using step(2,3) assms by simp_all
  have "cols \<noteq> 0" using assms by (rule place_image_record(1))
  then have pr: "printed st' = printed st @ [Processing (basename p)]"
    using process_image_printed [of w cols cw ch i p st] by (simp add: pi)
  have "st' = st\<lparr>printed := printed st @ [Processing (basename p)],
           atlas := atlas st @ [paste],
           atlas_mapping := AList.update (basename p) info (atlas_mapping st)\<rparr>"
    using a m pr by simp
  then show ?thesis by (simp add: pi exc)
qed

lemma placed_keys_distinct:
  assumes "distinct (map basename files)"
  shows "distinct (map fst (map (entry w cols cw ch)
            (filter (placed w cols cw ch) (enumerate_from i files))))"
proof -
  have e: "map fst (map (entry w cols cw ch) (filter (placed w cols cw ch) (enumerate_from i files)))
      = map (\<lambda>ip. basename (snd ip)) (filter (placed w cols cw ch) (enumerate_from i files))"
    by (simp add: entry_def comp_def)
  have "map (\<lambda>ip. basename (snd ip)) (enumerate_from i files)
      = map basename (map snd (enumerate_from i files))" by (simp add: comp_def)
  then have "distinct (map (\<lambda>ip. basename (snd ip)) (enumerate_from i files))"
    using assms by (simp only: snd_enumerate_from)
  then have "distinct (map (\<lambda>ip. basename (snd ip))
      (filter (placed w cols cw ch) (enumerate_from i files)))" by (rule distinct_map_filter)
  then show ?thesis by (simp only: e)
qed

lemma run_mapping:
  assumes "distinct (map basename files)"
  shows "atlas_mapping (process_images w cols cw ch 0 files initial_state) =
     map (entry w cols cw ch) (filter (placed w cols cw ch) (enumerate_from 0 files))"
  using process_images_mapping [OF assms, of initial_state w cols cw ch 0]
  by (simp add: initial_state_def)

lemma run_atlas:
  "atlas (process_images w cols cw ch 0 files initial_state) =
     map (\<lambda>ip. fst (projr (place_image w cols cw ch ip)))
       (filter (placed w cols cw ch) (enumerate_from 0 files))"
  using process_images_atlas [of w cols cw ch 0 files initial_state]
  by (simp add: initial_state_def)

lemma run_lookup:
  assumes "distinct (map basename files)" "k < length files"
  shows "map_of (atlas_mapping (process_images w cols cw ch 0 files initial_state))
           (basename (files ! k)) =
     (case place_image w cols cw ch (int k, files ! k) of
        Inl e \<Rightarrow> None | Inr r \<Rightarrow> Some (snd r))"
proof -
  let ?ps = "filter (placed w cols cw ch) (enumerate_from 0 files)"
  let ?m = "map (entry w cols cw ch) ?ps"
  have m: "atlas_mapping (process_images w cols cw ch 0 files initial_state) = ?m"
    using assms(1) by (rule run_mapping)
  have d: "distinct (map fst ?m)" using assms(1) by (rule placed_keys_distinct)
  have mem: "(int k, files ! k) \<in> set (enumerate_from 0 files)"
    using enumerate_from_member [OF assms(2), of 0] by simp
  show ?thesis
  proof (cases "place_image w cols cw ch (int k, files ! k)")
    case (Inr r)
    then have "placed w cols cw ch (int k, files ! k)" by (simp add: placed_def)
    with mem have "(int k, files ! k) \<in> set ?ps" by simp
    then have "entry w cols cw ch (int k, files ! k) \<in> set ?m" by simp
    then have "(basename (files ! k), snd r) \<in> set ?m" by (simp add: entry_def Inr)
    with d have "map_of ?m (basename (files ! k)) = Some (snd r)" by simp
    then show ?thesis by (simp add: m Inr)
  next
    case (Inl e)
    have "basename (files ! k) \<notin> fst ` set ?m"
    proof
      assume "basename (files ! k) \<in> fst ` set ?m"
      then obtain ip where ip: "ip \<in> set ?ps" "basename (snd ip) = basename (files ! k)"
        by (auto simp: entry_def)
      then have "ip \<in> set (enumerate_from 0 files)" by simp
      then obtain j where j: "j < length files" "ip = (int j, files ! j)"
        using enumerate_from_nth [of _ files 0]
        by (metis add.left_neutral in_set_conv_nth length_enumerate_from)
      from ip(2) j have "map basename files ! j = map basename files ! k"
        using assms(2) by simp
      moreover have "j < length (map basename files)" "k < length (map basename files)"
        using j(1) assms(2) by simp_all
      ultimately have "j = k" using assms(1) nth_eq_iff_index_eq by blast
      with ip(1) j(2) Inl show False by (simp add: placed_def)
    qed
    then have "map_of ?m (basename (files ! k)) = None" by (simp add: map_of_eq_None_iff)
    then show ?thesis by (simp add: m Inl)
  qed
qed


lemma demo_run:
  "create_atlas demo_world default_generator =
     Inr (process_images demo_world 8 32 32 0
            [''sprites/A.JPG'', ''sprites/b.png'', ''sprites/bad.png'', ''sprites/c.webp'']
            initial_state)"
proof -
  have "calculate_grid_size default_generator
      (int (length [''sprites/A.JPG'', ''sprites/b.png'', ''sprites/bad.png'', ''sprites/c.webp'']))
      = Inr (8, 1)"
    by (simp add: grid_default)
  from create_atlas_run [OF demo_files _ this] show ?thesis
    by (simp add: demo_world_def default_generator_def)
qed

lemma demo_basenames:
  "map basename [''sprites/A.JPG'', ''sprites/b.png'', ''sprites/bad.png'', ''sprites/c.webp'']
     = [''A.JPG'', ''b.png'', ''bad.png'', ''c.webp'']"
  by (simp add: basename_demo)

text \<open>
  Claim C8. For every 0-based index \<open>i\<close> in the sorted file list the image is assigned
  to the grid cell \<open>col = i % columns\<close>, \<open>row = i // columns\<close>, with the cell's pixel
  origin \<open>(col * spriteWidth, row * spriteHeight)\<close>, and the cell dimensions used for
  every image are the configured \<open>spriteWidth\<close> by \<open>spriteHeight\<close> whatever the grid
  size: this is what the mapping records for each file that is placed, and where it is
  pasted.
\<close>

theorem grid_cells:
  assumes "get_image_files w g = Inr files"
    and "calculate_grid_size g (int (length files)) = Inr (cols, rows)"
    and "create_atlas w g = Inr st"
    and "distinct (map basename files)"
    and "i < length files"
    and "placed w cols (sprite_width g) (sprite_height g) (int i, files ! i)"
  shows "\<exists>paste info.
      place_image w cols (sprite_width g) (sprite_height g) (int i, files ! i) = Inr (paste, info)
    \<and> map_of (atlas_mapping st) (basename (files ! i)) = Some info
    \<and> paste \<in> set (atlas st)
    \<and> cols \<noteq> 0
    \<and> info_cell_x info = (int i mod cols) * sprite_width g
    \<and> info_cell_y info = (int i div cols) * sprite_height g
    \<and> info_cell_width info = sprite_width g
    \<and> info_cell_height info = sprite_height g
    \<and> info_x info = info_cell_x info + (sprite_width g - info_width info) div 2
    \<and> info_y info = info_cell_y info + (sprite_height g - info_height info) div 2
    \<and> snd paste = (info_x info, info_y info)"
proof -
  let ?cw = "sprite_width g" and ?ch = "sprite_height g"
  obtain paste info where p: "place_image w cols ?cw ?ch (int i, files ! i) = Inr (paste, info)"
    using assms(6) by (cases "place_image w cols ?cw ?ch (int i, files ! i)") (auto simp: placed_def)
  note st = create_atlas_result(1) [OF assms(3,1,2)]
  have look: "map_of (atlas_mapping st) (basename (files ! i)) = Some info"
    using run_lookup [OF assms(4,5), of w cols ?cw ?ch] by (simp add: st p)
  have "(int i, files ! i) \<in> set (enumerate_from 0 files)"
    using enumerate_from_member [OF assms(5), of 0] by simp
  with assms(6) have "(int i, files ! i) \<in> set (filter (placed w cols ?cw ?ch) (enumerate_from 0 files))"
    by simp
  then have "fst (projr (place_image w cols ?cw ?ch (int i, files ! i))) \<in> set (atlas st)"
    unfolding st run_atlas by (simp only: set_map) (rule imageI)
  then have mem: "paste \<in> set (atlas st)" by (simp add: p)
  note c = place_image_record [OF p]
  from c(8) have "snd paste = (info_x info, info_y info)" by auto
  with p look mem c(1-7) show ?thesis by blast
qed

theorem grid_cells_witness:
  "get_image_files demo_world default_generator
     = Inr [''sprites/A.JPG'', ''sprites/b.png'', ''sprites/bad.png'', ''sprites/c.webp'']
   \<and> calculate_grid_size default_generator 4 = Inr (8, 1)
   \<and> placed demo_world 8 32 32 (3, ''sprites/c.webp'')
   \<and> (\<exists>st info. create_atlas demo_world default_generator = Inr st
        \<and> map_of (atlas_mapping st) ''c.webp'' = Some info
        \<and> info_cell_x info = 96 \<and> info_cell_y info = 0
        \<and> info_cell_width info = 32 \<and> info_cell_height info = 32)"
proof -
  let ?files = "[''sprites/A.JPG'', ''sprites/b.png'', ''sprites/bad.png'', ''sprites/c.webp'']"
  have g: "calculate_grid_size default_generator (int (length ?files)) = Inr (8, 1)"
    by (simp add: grid_default)
  have d: "distinct (map basename ?files)" by (simp only: demo_basenames) simp
  have s: "sprite_width default_generator = 32" "sprite_height default_generator = 32"
    by (simp_all add: default_generator_def)
  have pl: "placed demo_world 8 (sprite_width default_generator) (sprite_height default_generator)
      (int 3, ?files ! 3)"
    by (simp add: s placed_def place_demo_3)
  from grid_cells [OF demo_files g demo_run d _ pl]
  obtain paste info where
    "map_of (atlas_mapping (process_images demo_world 8 32 32 0 ?files initial_state))
        (basename (?files ! 3)) = Some info"
    "info_cell_x info = (int 3 mod 8) * 32" "info_cell_y info = (int 3 div 8) * 32"
    "info_cell_width info = 32" "info_cell_height info = 32"
    by (auto simp: s)
  then have "map_of (atlas_mapping (process_images demo_world 8 32 32 0 ?files initial_state))
        ''c.webp'' = Some info \<and> info_cell_x info = 96 \<and> info_cell_y info = 0
        \<and> info_cell_width info = 32 \<and> info_cell_height info = 32"
    by (simp add: basename_demo)
  then show ?thesis
    using demo_files grid_default demo_run by (simp add: placed_def place_demo_3)
qed





end
